theory Spec2Isabelle
  imports Main "HOL-Library.Word"
begin

unbundle bit_operations_syntax

section \<open>The uevent wire parser and the netlink connection of go-udev\<close>

text \<open>
  A shallow embedding of \<^verbatim>\<open>netlink/uevent.go\<close> and \<^verbatim>\<open>netlink/conn.go\<close>.
  A Go \<^verbatim>\<open>string\<close> and a Go \<^verbatim>\<open>[]byte\<close> are both sequences of bytes; both are
  \<^typ>\<open>string\<close> here, a list of 8-bit \<^typ>\<open>char\<close>s. A Go function that may panic
  returns \<open>fault + 'a\<close>; its named results \<^verbatim>\<open>(e *UEvent, err error)\<close> are the
  pair \<open>(e, err)\<close> of two options, \<open>None\<close> for \<^verbatim>\<open>nil\<close>.
\<close>

subsection \<open>What the platform fixes\<close>

text \<open>
  Three things the code takes from the platform it runs on: the byte order of an
  unsafe \<^verbatim>\<open>uint32\<close> read, \<^verbatim>\<open>os.Getpagesize()\<close>, and the Unicode case table that
  \<^verbatim>\<open>strings.ToLower\<close> falls back to on a string with a byte above 127.
\<close>

record platform =
  little_endian :: bool
  Getpagesize :: nat
  unicode_ToLower :: "string \<Rightarrow> string"

abbreviation NUL :: char where
  "NUL \<equiv> CHR 0x00"

subsection \<open>Errors and faults\<close>

type_synonym errno = nat

datatype error =
    ErrUnknownAction string       \<comment> \<open>"unknow kobject action (got: %s)"\<close>
  | ErrMagicMismatch              \<comment> \<open>"cannot parse libudev event: magic number mismatch"\<close>
  | ErrInvalidOffset              \<comment> \<open>"cannot parse libudev event: invalid data offset"\<close>
  | ErrDataMissing                \<comment> \<open>"cannot parse libudev event: data missing"\<close>
  | ErrInvalidEnv                 \<comment> \<open>"cannot parse libudev event: invalid env data"\<close>
  | ErrWrongFormat                \<comment> \<open>"Wrong uevent format"\<close>
  | ErrWrongHeader                \<comment> \<open>"Wrong uevent header"\<close>
  | ErrWrongEnv                   \<comment> \<open>"Wrong uevent env"\<close>
  | ErrEmptyBuffer                \<comment> \<open>"empty buffer"\<close>
  | ErrSyscall errno              \<comment> \<open>the error of a failed system call\<close>
  | ErrWrongMatcher error         \<comment> \<open>"Wrong matcher, err: %w"\<close>
  | ErrUnableToRead error         \<comment> \<open>"Unable to read uevent, err: %w"\<close>
  | ErrUnableToParse error        \<comment> \<open>"Unable to parse uevent, err: %w"\<close>
  | ErrUnableToCheck error        \<comment> \<open>"Unable to check available uevent, err: %w"\<close>
  | ErrMatcherCompile             \<comment> \<open>whatever \<^verbatim>\<open>matcher.Compile()\<close> returned\<close>

datatype fault =
    SliceBounds int int           \<comment> \<open>panic: slice bounds out of range [lo:hi]\<close>
  | IndexOutOfRange int nat       \<comment> \<open>panic: index out of range [i] with length n\<close>
  | UnsafeRead                    \<comment> \<open>an unsafe read past the end of the slice\<close>
  | NilDereference                \<comment> \<open>panic: nil pointer dereference\<close>

subsection \<open>Library functions the parser calls\<close>

text \<open>
  \<^verbatim>\<open>bytes.Split(s, sep)\<close> for a one-byte separator, the only kind the parser uses:
  the fields between the separators, in order; a string without the separator is
  its own single field, so the result is never empty.
\<close>

fun SplitFrom :: "string \<Rightarrow> string \<Rightarrow> char \<Rightarrow> string list" where
  "SplitFrom cur [] c = [cur]"
| "SplitFrom cur (x # xs) c =
     (if x = c then cur # SplitFrom [] xs c else SplitFrom (cur @ [x]) xs c)"

definition Split :: "string \<Rightarrow> char \<Rightarrow> string list" where
  "Split s c = SplitFrom [] s c"

text \<open>The slice expression \<^verbatim>\<open>s[lo:hi]\<close>, which panics unless \<open>0 \<le> lo \<le> hi \<le> len(s)\<close>.\<close>

definition go_slice :: "'a list \<Rightarrow> int \<Rightarrow> int \<Rightarrow> fault + 'a list" where
  "go_slice s lo hi =
     (if 0 \<le> lo \<and> lo \<le> hi \<and> hi \<le> int (length s)
      then Inr (drop (nat lo) (take (nat hi) s))
      else Inl (SliceBounds lo hi))"

text \<open>A map index expression \<^verbatim>\<open>m[k]\<close>: the zero value, the empty string, for a missing key.\<close>

definition go_index :: "(string \<rightharpoonup> string) \<Rightarrow> string \<Rightarrow> string" where
  "go_index m k = (case m k of None \<Rightarrow> [] | Some v \<Rightarrow> v)"

text \<open>\<^verbatim>\<open>binary.BigEndian.Uint32(b)\<close>, which panics on fewer than four bytes.\<close>

definition BigEndian_Uint32 :: "string \<Rightarrow> fault + 32 word" where
  "BigEndian_Uint32 b =
     (if length b < 4 then Inl (IndexOutOfRange 3 (length b))
      else Inr (of_char (b ! 3) OR push_bit 8 (of_char (b ! 2))
                OR push_bit 16 (of_char (b ! 1)) OR push_bit 24 (of_char (b ! 0))))"

text \<open>
  \<^verbatim>\<open>*(*uint32)(unsafe.Pointer(&raw[i]))\<close>: the index expression panics past the end;
  the four bytes from \<open>i\<close> on are then read in the byte order of the platform.
\<close>

definition unsafe_Uint32 :: "platform \<Rightarrow> string \<Rightarrow> nat \<Rightarrow> fault + 32 word" where
  "unsafe_Uint32 pf raw i =
     (if length raw \<le> i then Inl (IndexOutOfRange (int i) (length raw))
      else if length raw < i + 4 then Inl UnsafeRead
      else if little_endian pf
      then Inr (of_char (raw ! i) OR push_bit 8 (of_char (raw ! (i + 1)))
                OR push_bit 16 (of_char (raw ! (i + 2))) OR push_bit 24 (of_char (raw ! (i + 3))))
      else Inr (of_char (raw ! (i + 3)) OR push_bit 8 (of_char (raw ! (i + 2)))
                OR push_bit 16 (of_char (raw ! (i + 1))) OR push_bit 24 (of_char (raw ! i))))"

text \<open>
  \<^verbatim>\<open>strings.ToLower\<close>: on a string of ASCII bytes, each of \<open>A\<close> to \<open>Z\<close> moves up by
  \<open>'a' - 'A'\<close>; any other string goes through the Unicode table of the platform.
\<close>

definition lower_byte :: "char \<Rightarrow> char" where
  "lower_byte c =
     (if (65::nat) \<le> of_char c \<and> of_char c \<le> (90::nat)
      then char_of (of_char c + (32::nat)) else c)"

definition ToLower :: "platform \<Rightarrow> string \<Rightarrow> string" where
  "ToLower pf s =
     (if list_all (\<lambda>c. of_char c < (128::nat)) s then map lower_byte s
      else unicode_ToLower pf s)"

subsection \<open>The event model\<close>

type_synonym KObjAction = string

definition ADD :: KObjAction where "ADD = ''add''"
definition REMOVE :: KObjAction where "REMOVE = ''remove''"
definition CHANGE :: KObjAction where "CHANGE = ''change''"
definition MOVE :: KObjAction where "MOVE = ''move''"
definition ONLINE :: KObjAction where "ONLINE = ''online''"
definition OFFLINE :: KObjAction where "OFFLINE = ''offline''"
definition BIND :: KObjAction where "BIND = ''bind''"
definition UNBIND :: KObjAction where "UNBIND = ''unbind''"

definition libudevMagic :: "32 word" where
  "libudevMagic = 0xfeedcafe"

definition ParseKObjAction :: "string \<Rightarrow> KObjAction \<times> error option" where
  "ParseKObjAction raw =
     (if raw \<in> set [ADD, REMOVE, CHANGE, MOVE, ONLINE, OFFLINE, BIND, UNBIND]
      then (raw, None)
      else (raw, Some (ErrUnknownAction raw)))"

record UEvent =
  Action :: KObjAction
  KObj :: string
  Env :: "string \<rightharpoonup> string"

text \<open>
  \<^verbatim>\<open>UEvent.String\<close> ranges over the map \<^verbatim>\<open>e.Env\<close>, in an order Go leaves open. The
  order of that one iteration is the argument \<open>ks\<close>: the keys of \<open>Env e\<close>, each once.
\<close>

definition range_order :: "string list \<Rightarrow> (string \<rightharpoonup> string) \<Rightarrow> bool" where
  "range_order ks m = (distinct ks \<and> set ks = dom m)"

definition UEvent_String :: "string list \<Rightarrow> UEvent \<Rightarrow> string" where
  "UEvent_String ks e =
     Action e @ ''@'' @ KObj e @ [NUL]
       @ concat (map (\<lambda>k. k @ ''='' @ go_index (Env e) k @ [NUL]) ks)"

definition UEvent_Bytes :: "string list \<Rightarrow> UEvent \<Rightarrow> string" where
  "UEvent_Bytes ks e = UEvent_String ks e"

datatype equal_error =
    WrongAction KObjAction KObjAction
  | WrongKObject string string
  | WrongLength nat nat
  | EnvNotFound string string

text \<open>
  The outer loop of \<^verbatim>\<open>UEvent.Equal\<close> over \<^verbatim>\<open>e.Env\<close>, in the order \<open>ks\<close>; the inner
  loop searches \<^verbatim>\<open>e2.Env\<close> for the pair \<open>(k, v)\<close>, which it finds exactly when
  \<open>e2.Env\<close> maps \<open>k\<close> to \<open>v\<close>.
\<close>

fun Equal_loop :: "string list \<Rightarrow> (string \<rightharpoonup> string) \<Rightarrow> (string \<rightharpoonup> string)
    \<Rightarrow> bool \<times> equal_error option" where
  "Equal_loop [] env env2 = (True, None)"
| "Equal_loop (k # ks) env env2 =
     (let v = go_index env k; found = (env2 k = Some v) in
      if \<not> found then (False, Some (EnvNotFound k v))
      else Equal_loop ks env env2)"

definition UEvent_Equal :: "string list \<Rightarrow> UEvent \<Rightarrow> UEvent \<Rightarrow> bool \<times> equal_error option" where
  "UEvent_Equal ks e e2 =
     (if Action e \<noteq> Action e2 then (False, Some (WrongAction (Action e) (Action e2)))
      else if KObj e \<noteq> KObj e2 then (False, Some (WrongKObject (KObj e) (KObj e2)))
      else if card (dom (Env e)) \<noteq> card (dom (Env e2))
      then (False, Some (WrongLength (card (dom (Env e))) (card (dom (Env e2)))))
      else Equal_loop ks (Env e) (Env e2))"

subsection \<open>The parser\<close>

text \<open>
  The loop both parsers run over their env fields: a field that does not split on
  \<open>=\<close> into exactly two parts ends the loop with the parser's error \<open>bad\<close>, leaving
  the map as filled so far; any other field is stored.
\<close>

fun env_loop :: "error \<Rightarrow> string list \<Rightarrow> (string \<rightharpoonup> string)
    \<Rightarrow> (string \<rightharpoonup> string) \<times> error option" where
  "env_loop bad [] envdata = (envdata, None)"
| "env_loop bad (envs # rest) envdata =
     (let env = Split envs (CHR ''='') in
      if length env \<noteq> 2 then (envdata, Some bad)
      else env_loop bad rest (envdata(env ! 0 \<mapsto> env ! 1)))"

type_synonym parse_result = "fault + (UEvent option \<times> error option)"

definition parseUdevEvent :: "platform \<Rightarrow> string \<Rightarrow> parse_result" where
  "parseUdevEvent pf raw =
     (case go_slice raw 8 (int (length raw)) of Inl f \<Rightarrow> Inl f | Inr raw8 \<Rightarrow>
      case BigEndian_Uint32 raw8 of Inl f \<Rightarrow> Inl f | Inr magic \<Rightarrow>
      if magic \<noteq> libudevMagic then Inr (None, Some ErrMagicMismatch)
      else
      case unsafe_Uint32 pf raw 16 of Inl f \<Rightarrow> Inl f | Inr payloadoff \<Rightarrow>
      if payloadoff \<ge> (word_of_nat (length raw) :: 32 word) then Inr (None, Some ErrInvalidOffset)
      else
      case go_slice raw (int (unat payloadoff)) (int (length raw)) of Inl f \<Rightarrow> Inl f | Inr payload \<Rightarrow>
      let fields = Split payload NUL in
      if length fields = 0 then Inr (None, Some ErrDataMissing)
      else
      case go_slice fields 0 (int (length fields) - 1) of Inl f \<Rightarrow> Inl f | Inr envfields \<Rightarrow>
      case env_loop ErrInvalidEnv envfields Map.empty of
        (envdata, Some err) \<Rightarrow> Inr (None, Some err)
      | (envdata, None) \<Rightarrow>
          (case ParseKObjAction (ToLower pf (go_index envdata ''ACTION'')) of
             (action, Some err) \<Rightarrow> Inr (None, Some err)
           | (action, None) \<Rightarrow>
               Inr (Some \<lparr>Action = action, KObj = go_index envdata ''DEVPATH'', Env = envdata\<rparr>,
                    None)))"

text \<open>
  The body of \<^verbatim>\<open>ParseUEvent\<close> below its format test (lines 154 to 186), the parser
  of the kernel's own format. The event is allocated before the env loop runs, so
  a bad env field returns the error together with the event filled so far.
\<close>

definition parseKernelFormat :: "string \<Rightarrow> parse_result" where
  "parseKernelFormat raw =
     (let fields = Split raw NUL in
      if length fields = 0 then Inr (None, Some ErrWrongFormat)
      else
      let headers = Split (fields ! 0) (CHR ''@'') in
      if length headers \<noteq> 2 then Inr (None, Some ErrWrongHeader)
      else
      case ParseKObjAction (headers ! 0) of
        (action, Some err) \<Rightarrow> Inr (None, Some err)
      | (action, None) \<Rightarrow>
          (case go_slice fields 1 (int (length fields) - 1) of Inl f \<Rightarrow> Inl f | Inr envfields \<Rightarrow>
           case env_loop ErrWrongEnv envfields Map.empty of
             (env, err) \<Rightarrow> Inr (Some \<lparr>Action = action, KObj = headers ! 1, Env = env\<rparr>, err)))"

definition libudev_prefix :: string where
  "libudev_prefix = ''libudev'' @ [NUL]"

definition ParseUEvent :: "platform \<Rightarrow> string \<Rightarrow> parse_result" where
  "ParseUEvent pf raw =
     (if length raw > 40 \<and> take 8 raw = libudev_prefix then parseUdevEvent pf raw
      else parseKernelFormat raw)"

subsection \<open>The kernel side of the socket\<close>

text \<open>
  What \<^verbatim>\<open>syscall.Recvfrom\<close> does is fixed by the kernel, not by this code. The
  socket holds whole datagrams, oldest first. A call copies the oldest datagram
  into the buffer, as much of it as fits, and returns the number of bytes copied;
  with \<^verbatim>\<open>MSG_PEEK\<close> the datagram stays queued, without it the datagram is removed,
  whatever did not fit being dropped. With nothing queued the call never returns
  (\<open>None\<close>). The list \<open>faults\<close> says which of the coming calls fail: its head is
  consulted and removed by every call, and \<open>Some errno\<close> makes that call fail.
\<close>

record kernel =
  rxq :: "string list"
  faults :: "errno option list"

definition Recvfrom :: "kernel \<Rightarrow> string \<Rightarrow> bool
    \<Rightarrow> ((int \<times> string \<times> error option) \<times> kernel) option" where
  "Recvfrom k buf peek =
     (case faults k of
        Some e # later \<Rightarrow> Some ((- 1, buf, Some (ErrSyscall e)), k\<lparr>faults := later\<rparr>)
      | _ \<Rightarrow>
        (case rxq k of
           [] \<Rightarrow> None
         | d # ds \<Rightarrow>
             let n = min (length d) (length buf) in
             Some ((int n, take n d @ drop n buf, None),
                   k\<lparr>faults := tl (faults k), rxq := (if peek then d # ds else ds)\<rparr>)))"

subsection \<open>The connection\<close>

text \<open>
  The loop of \<^verbatim>\<open>msgPeek\<close>. It has no bound of its own: it ends when a peek fails
  or returns fewer bytes than the buffer holds.
\<close>

partial_function (option) msgPeek_loop :: "platform \<Rightarrow> kernel \<Rightarrow> string
    \<Rightarrow> ((int \<times> string \<times> error option) \<times> kernel) option" where
  "msgPeek_loop pf k buf =
     Option.bind (Recvfrom k buf True) (\<lambda>((n, buf', err), k').
       if err \<noteq> None then Some ((n, buf', err), k')
       else if n < int (length buf') then Some ((n, buf', err), k')
       else msgPeek_loop pf k' (replicate (length buf' + Getpagesize pf) NUL))"

definition msgPeek :: "platform \<Rightarrow> kernel
    \<Rightarrow> ((int \<times> string \<times> error option) \<times> kernel) option" where
  "msgPeek pf k = msgPeek_loop pf k (replicate (Getpagesize pf) NUL)"

text \<open>
  \<^verbatim>\<open>msgRead\<close> takes a pointer to the buffer: \<open>None\<close> is the \<^verbatim>\<open>nil\<close> pointer. It
  returns its error and leaves the buffer behind the pointer as the second component.
\<close>

definition msgRead :: "kernel \<Rightarrow> string option
    \<Rightarrow> ((error option \<times> string option) \<times> kernel) option" where
  "msgRead k buf =
     (case buf of
        None \<Rightarrow> Some ((Some ErrEmptyBuffer, None), k)
      | Some b \<Rightarrow>
          Option.bind (Recvfrom k b False) (\<lambda>((n, b', err), k').
            if err \<noteq> None then Some ((err, Some b'), k')
            else Some ((None, Some (take (nat n) b')), k')))"

definition ReadMsg :: "platform \<Rightarrow> kernel
    \<Rightarrow> ((string option \<times> error option) \<times> kernel) option" where
  "ReadMsg pf k =
     Option.bind (msgPeek pf k) (\<lambda>((n, buf, err), k').
       if err \<noteq> None then Some ((None, err), k')
       else Option.bind (msgRead k' (Some buf)) (\<lambda>((err', buf'), k'').
         Some ((buf', err'), k'')))"

subsection \<open>The monitor\<close>

text \<open>
  The \<^verbatim>\<open>Matcher\<close> interface is declared outside these files; the monitor uses its
  two methods only: the result of \<^verbatim>\<open>Compile()\<close> and the predicate \<^verbatim>\<open>Evaluate\<close>.
\<close>

record matcher =
  Compile :: "error option"
  Evaluate :: "UEvent \<Rightarrow> bool"

text \<open>
  Where the worker goroutine of \<^verbatim>\<open>Monitor\<close> is: in its loop, past it, dead of a
  panic, or inside a system call that never returns.
\<close>

datatype control = Looping | Exited | Crashed fault | Blocked

text \<open>
  The state of the worker: the socket, the one-place channel \<^verbatim>\<open>bufToRead\<close>, the
  counter, and what has been sent so far on \<^verbatim>\<open>queue\<close> and on \<^verbatim>\<open>errs\<close>. Both are
  channels the caller reads; every send is taken to be received.
\<close>

record monitor =
  kern :: kernel
  bufToRead :: "string option"
  count :: int
  queue :: "UEvent list"
  queue_closed :: bool
  errs :: "error list"
  ctl :: control

text \<open>
  One turn of the loop. What the \<^verbatim>\<open>select\<close> statement sees of the channel \<^verbatim>\<open>quit\<close>
  comes from outside: \<open>quit_ready\<close> says that \<^verbatim>\<open>quit\<close> can be received from in this
  turn, and \<open>pick_quit\<close> is the choice Go makes when \<^verbatim>\<open>bufToRead\<close> is ready as well.
  The \<^verbatim>\<open>default\<close> case runs only when neither channel is ready.
\<close>

definition Monitor_step :: "platform \<Rightarrow> int \<Rightarrow> matcher option \<Rightarrow> bool \<times> bool
    \<Rightarrow> monitor \<Rightarrow> monitor" where
  "Monitor_step pf MatchedUEventLimit m sel st =
     (let quit_ready = fst sel; pick_quit = snd sel in
      if ctl st \<noteq> Looping then st
      else if quit_ready \<and> (bufToRead st = None \<or> pick_quit) then st\<lparr>ctl := Exited\<rparr>
      else
      case bufToRead st of
        Some buf \<Rightarrow>
          (case msgRead (kern st) (Some buf) of
             None \<Rightarrow> st\<lparr>bufToRead := None, ctl := Blocked\<rparr>
           | Some ((Some err, b), k') \<Rightarrow>
               st\<lparr>kern := k', bufToRead := None,
                  errs := errs st @ [ErrUnableToRead err], ctl := Exited\<rparr>
           | Some ((None, None), k') \<Rightarrow>
               st\<lparr>kern := k', bufToRead := None, ctl := Crashed NilDereference\<rparr>
           | Some ((None, Some b), k') \<Rightarrow>
               (case ParseUEvent pf b of
                  Inl f \<Rightarrow> st\<lparr>kern := k', bufToRead := None, ctl := Crashed f\<rparr>
                | Inr (e, err) \<Rightarrow>
                    (case err of
                       Some perr \<Rightarrow>
                         st\<lparr>kern := k', bufToRead := None,
                            errs := errs st @ [ErrUnableToParse perr]\<rparr>
                     | None \<Rightarrow>
                         (case e of
                            None \<Rightarrow>
                              st\<lparr>kern := k', bufToRead := None, ctl := Crashed NilDereference\<rparr>
                          | Some uevent \<Rightarrow>
                              if (case m of None \<Rightarrow> False
                                  | Some mt \<Rightarrow> \<not> Evaluate mt uevent)
                              then st\<lparr>kern := k', bufToRead := None\<rparr>
                              else
                                let st' = st\<lparr>kern := k', bufToRead := None,
                                            queue := queue st @ [uevent],
                                            count := count st + 1\<rparr> in
                                if MatchedUEventLimit > 0 \<and> count st' \<ge> MatchedUEventLimit
                                then st'\<lparr>ctl := Exited\<rparr> else st'))))
      | None \<Rightarrow>
          (case msgPeek pf (kern st) of
             None \<Rightarrow> st\<lparr>ctl := Blocked\<rparr>
           | Some ((n, buf, Some err), k') \<Rightarrow>
               st\<lparr>kern := k', errs := errs st @ [ErrUnableToCheck err], ctl := Exited\<rparr>
           | Some ((n, buf, None), k') \<Rightarrow> st\<lparr>kern := k', bufToRead := Some buf\<rparr>))"

text \<open>The loop, for as many turns as there are entries in the list of what \<^verbatim>\<open>select\<close> sees.\<close>

fun Monitor_loop :: "platform \<Rightarrow> int \<Rightarrow> matcher option \<Rightarrow> (bool \<times> bool) list
    \<Rightarrow> monitor \<Rightarrow> monitor" where
  "Monitor_loop pf MatchedUEventLimit m [] st = st"
| "Monitor_loop pf MatchedUEventLimit m (sel # sels) st =
     Monitor_loop pf MatchedUEventLimit m sels (Monitor_step pf MatchedUEventLimit m sel st)"

text \<open>
  \<^verbatim>\<open>Monitor\<close>: a matcher that does not compile ends it before the worker starts,
  with one error sent and \<^verbatim>\<open>queue\<close> closed.
\<close>

definition Monitor :: "platform \<Rightarrow> int \<Rightarrow> matcher option \<Rightarrow> kernel \<Rightarrow> (bool \<times> bool) list
    \<Rightarrow> monitor" where
  "Monitor pf MatchedUEventLimit m k sels =
     (let st0 = \<lparr>kern = k, bufToRead = None, count = 0, queue = [], queue_closed = False,
                 errs = [], ctl = Looping\<rparr> in
      case (case m of None \<Rightarrow> None | Some mt \<Rightarrow> Compile mt) of
        Some err \<Rightarrow> st0\<lparr>queue_closed := True, errs := [ErrWrongMatcher err], ctl := Exited\<rparr>
      | None \<Rightarrow> Monitor_loop pf MatchedUEventLimit m sels st0)"

subsection \<open>A platform for the examples\<close>

text \<open>
  A little-endian machine with pages of 4096 bytes. The examples hold ASCII bytes
  only, so its Unicode table is never consulted and is left as the identity.
\<close>

definition example_platform :: platform where
  "example_platform = \<lparr>little_endian = True, Getpagesize = 4096, unicode_ToLower = (\<lambda>s. s)\<rparr>"

section \<open>Properties\<close>

subsection \<open>Splitting\<close>

lemma SplitFrom_length: "length (SplitFrom cur s c) = Suc (length (filter (\<lambda>x. x = c) s))"
  by (induction s arbitrary: cur) auto

lemma Split_length: "length (Split s c) = Suc (length (filter (\<lambda>x. x = c) s))"
  by (simp add: Split_def SplitFrom_length)

lemma Split_not_Nil: "Split s c \<noteq> []"
  using Split_length [of s c] by auto

lemma SplitFrom_notin: "c \<notin> set s \<Longrightarrow> SplitFrom cur s c = [cur @ s]"
  by (induction s arbitrary: cur) auto

lemma SplitFrom_append:
  "c \<notin> set a \<Longrightarrow> SplitFrom cur (a @ c # b) c = (cur @ a) # SplitFrom [] b c"
  by (induction a arbitrary: cur) auto

lemma Split_notin: "c \<notin> set s \<Longrightarrow> Split s c = [s]"
  by (simp add: Split_def SplitFrom_notin)

lemma Split_append: "c \<notin> set a \<Longrightarrow> Split (a @ c # b) c = a # Split b c"
  by (simp add: Split_def SplitFrom_append)

lemma Split_length_one_iff: "length (Split s c) = 1 \<longleftrightarrow> c \<notin> set s"
  by (auto simp add: Split_length filter_empty_conv)

lemma Split_length_ge2_iff: "2 \<le> length (Split s c) \<longleftrightarrow> c \<in> set s"
proof -
  have "1 \<le> length (Split s c)" by (simp add: Split_length)
  then show ?thesis using Split_length_one_iff [of s c] by arith
qed

lemma go_slice_fields_1:
  "go_slice fs 1 (int (length fs) - 1) =
     (if 2 \<le> length fs then Inr (butlast (tl fs))
      else Inl (SliceBounds 1 (int (length fs) - 1)))"
  by (auto simp add: go_slice_def butlast_conv_take drop_Suc tl_take drop_take nat_diff_distrib')

subsection \<open>Format detection\<close>

text \<open>
  C1. \<^verbatim>\<open>ParseUEvent\<close> hands a buffer to the parser of the enriched format exactly
  when the buffer is longer than 40 bytes and its first 8 bytes are the ASCII
  bytes of \<open>libudev\<close> followed by a NUL byte; a buffer of 40 bytes or fewer, or
  one that does not start with that prefix, is parsed as the native format.
\<close>

theorem ParseUEvent_dispatch:
  "(length raw > 40 \<and> take 8 raw = ''libudev'' @ [CHR 0x00]
      \<longrightarrow> ParseUEvent pf raw = parseUdevEvent pf raw) \<and>
   (length raw \<le> 40 \<or> take 8 raw \<noteq> ''libudev'' @ [CHR 0x00]
      \<longrightarrow> ParseUEvent pf raw = parseKernelFormat raw)"
  by (auto simp add: ParseUEvent_def libudev_prefix_def)

theorem ParseUEvent_dispatch_witness:
  "(length (''libudev'' @ [NUL] @ [CHR 0xFE, CHR 0xED, CHR 0xCA, CHR 0xFE] @ [NUL, NUL, NUL, NUL]
       @ [CHR 0x18, NUL, NUL, NUL] @ [NUL, NUL, NUL, NUL]
       @ ''ACTION=change'' @ [NUL] @ ''DEVPATH=/devices/bar'' @ [NUL]) > 40
    \<and> ParseUEvent example_platform
      (''libudev'' @ [NUL] @ [CHR 0xFE, CHR 0xED, CHR 0xCA, CHR 0xFE] @ [NUL, NUL, NUL, NUL]
       @ [CHR 0x18, NUL, NUL, NUL] @ [NUL, NUL, NUL, NUL]
       @ ''ACTION=change'' @ [NUL] @ ''DEVPATH=/devices/bar'' @ [NUL])
    = parseUdevEvent example_platform
      (''libudev'' @ [NUL] @ [CHR 0xFE, CHR 0xED, CHR 0xCA, CHR 0xFE] @ [NUL, NUL, NUL, NUL]
       @ [CHR 0x18, NUL, NUL, NUL] @ [NUL, NUL, NUL, NUL]
       @ ''ACTION=change'' @ [NUL] @ ''DEVPATH=/devices/bar'' @ [NUL]))
   \<and> (length (''libudev'' @ [NUL] @ ''add@/x'' @ [NUL]) \<le> 40
    \<and> ParseUEvent example_platform (''libudev'' @ [NUL] @ ''add@/x'' @ [NUL])
      = parseKernelFormat (''libudev'' @ [NUL] @ ''add@/x'' @ [NUL]))
   \<and> (take 8 (''add@/devices/foo'' @ [NUL] @ ''DEVPATH=/devices/foo'' @ [NUL] @ ''SUBSYSTEM=x'' @ [NUL])
         \<noteq> ''libudev'' @ [NUL]
    \<and> ParseUEvent example_platform
         (''add@/devices/foo'' @ [NUL] @ ''DEVPATH=/devices/foo'' @ [NUL] @ ''SUBSYSTEM=x'' @ [NUL])
      = parseKernelFormat
         (''add@/devices/foo'' @ [NUL] @ ''DEVPATH=/devices/foo'' @ [NUL] @ ''SUBSYSTEM=x'' @ [NUL]))"
proof -
  let ?b1 = "''libudev'' @ [NUL] @ [CHR 0xFE, CHR 0xED, CHR 0xCA, CHR 0xFE] @ [NUL, NUL, NUL, NUL]
       @ [CHR 0x18, NUL, NUL, NUL] @ [NUL, NUL, NUL, NUL]
       @ ''ACTION=change'' @ [NUL] @ ''DEVPATH=/devices/bar'' @ [NUL]"
  let ?b2 = "''libudev'' @ [NUL] @ ''add@/x'' @ [NUL]"
  let ?b3 = "''add@/devices/foo'' @ [NUL] @ ''DEVPATH=/devices/foo'' @ [NUL] @ ''SUBSYSTEM=x'' @ [NUL]"
  have h1: "length ?b1 > 40 \<and> take 8 ?b1 = ''libudev'' @ [CHR 0x00]" by simp
  have h2: "length ?b2 \<le> 40" by simp
  have h3: "take 8 ?b3 \<noteq> ''libudev'' @ [NUL]" by simp
  show ?thesis
    using h1 h2 h3 ParseUEvent_dispatch [of ?b1 example_platform]
      ParseUEvent_dispatch [of ?b2 example_platform]
      ParseUEvent_dispatch [of ?b3 example_platform]
    by blast
qed

subsection \<open>The env loop\<close>

lemma env_loop_ok:
  "\<forall>f \<in> set fs. length (Split f (CHR ''='')) = 2 \<Longrightarrow>
   env_loop bad fs m =
     (m ++ map_of (rev (map (\<lambda>f. (Split f (CHR ''='') ! 0, Split f (CHR ''='') ! 1)) fs)), None)"
proof (induction fs arbitrary: m)
  case Nil
  then show ?case by simp
next
  case (Cons f fs)
  have assoc: "\<And>k v X. m ++ ([k \<mapsto> v] ++ X) = m(k \<mapsto> v) ++ X"
    by (rule ext) (simp add: map_add_def split: option.splits)
  from Cons show ?case
    by (simp add: Let_def assoc)
qed

lemma env_loop_bad:
  "\<exists>f \<in> set fs. length (Split f (CHR ''='')) \<noteq> 2 \<Longrightarrow> snd (env_loop bad fs m) = Some bad"
  by (induction fs arbitrary: m) (auto simp add: Let_def)

lemma env_loop_err: "snd (env_loop bad fs m) = Some err \<Longrightarrow> err = bad"
  by (induction fs arbitrary: m) (auto simp add: Let_def split: if_splits)

subsection \<open>The native format\<close>

lemma hd_Split: "Split s c ! 0 = hd (Split s c)"
  by (simp add: hd_conv_nth Split_not_Nil)

lemma parseKernelFormat_bad_header:
  "length (Split (hd (Split raw NUL)) (CHR ''@'')) \<noteq> 2 \<Longrightarrow>
   parseKernelFormat raw = Inr (None, Some ErrWrongHeader)"
  by (simp add: parseKernelFormat_def Let_def hd_Split Split_not_Nil)

lemma parseKernelFormat_bad_action:
  "Split (hd (Split raw NUL)) (CHR ''@'') = [a, k] \<Longrightarrow>
   a \<notin> set [ADD, REMOVE, CHANGE, MOVE, ONLINE, OFFLINE, BIND, UNBIND] \<Longrightarrow>
   parseKernelFormat raw = Inr (None, Some (ErrUnknownAction a))"
  by (simp add: parseKernelFormat_def Let_def hd_Split Split_not_Nil ParseKObjAction_def)

lemma parseKernelFormat_env:
  "Split (hd (Split raw NUL)) (CHR ''@'') = [a, k] \<Longrightarrow>
   a \<in> set [ADD, REMOVE, CHANGE, MOVE, ONLINE, OFFLINE, BIND, UNBIND] \<Longrightarrow>
   NUL \<in> set raw \<Longrightarrow>
   parseKernelFormat raw =
     Inr (Some \<lparr>Action = a, KObj = k,
                Env = fst (env_loop ErrWrongEnv (butlast (tl (Split raw NUL))) Map.empty)\<rparr>,
          snd (env_loop ErrWrongEnv (butlast (tl (Split raw NUL))) Map.empty))"
  using Split_length_ge2_iff [of raw NUL]
  by (simp add: parseKernelFormat_def Let_def hd_Split Split_not_Nil ParseKObjAction_def
      go_slice_fields_1 split: prod.splits)

lemma parseKernelFormat_panic:
  "Split (hd (Split raw NUL)) (CHR ''@'') = [a, k] \<Longrightarrow>
   a \<in> set [ADD, REMOVE, CHANGE, MOVE, ONLINE, OFFLINE, BIND, UNBIND] \<Longrightarrow>
   NUL \<notin> set raw \<Longrightarrow>
   parseKernelFormat raw = Inl (SliceBounds 1 0)"
  using Split_length_one_iff [of raw NUL]
  by (simp add: parseKernelFormat_def Let_def hd_Split Split_not_Nil ParseKObjAction_def
      go_slice_def split: prod.splits)

text \<open>
  C2, as the code has it. For a buffer parsed as native format: a first field that
  does not split on \<open>@\<close> into exactly two parts is the error of a wrong header.
  When it does split, into a valid action and the kobject path, and the buffer
  holds a NUL byte, the fields strictly between the first and the last one are
  the env fields: if each splits on \<open>=\<close> into exactly two parts, the event has that
  action, that path and those pairs as its env; if one does not, the result
  carries the error of a wrong env. The last field, what follows the final NUL
  byte, is not looked at; it is empty when the buffer ends in a NUL byte. The
  buffer \<open>add@/devices/foo\<close> NUL \<open>DEVPATH=/devices/foo\<close> NUL parses to the action
  \<open>add\<close>, the path \<open>/devices/foo\<close> and the env of \<open>DEVPATH\<close> alone.
\<close>

theorem native_format_fields:
  "(length raw \<le> 40 \<or> take 8 raw \<noteq> ''libudev'' @ [NUL] \<longrightarrow>
     (length (Split (hd (Split raw NUL)) (CHR ''@'')) \<noteq> 2 \<longrightarrow>
        ParseUEvent pf raw = Inr (None, Some ErrWrongHeader)) \<and>
     (\<forall>a k. Split (hd (Split raw NUL)) (CHR ''@'') = [a, k]
          \<and> a \<in> set [ADD, REMOVE, CHANGE, MOVE, ONLINE, OFFLINE, BIND, UNBIND]
          \<and> NUL \<in> set raw \<longrightarrow>
        ((\<forall>f \<in> set (butlast (tl (Split raw NUL))). length (Split f (CHR ''='')) = 2) \<longrightarrow>
           ParseUEvent pf raw =
             Inr (Some \<lparr>Action = a, KObj = k,
                        Env = map_of (rev (map (\<lambda>f. (Split f (CHR ''='') ! 0, Split f (CHR ''='') ! 1))
                                (butlast (tl (Split raw NUL)))))\<rparr>, None)) \<and>
        ((\<exists>f \<in> set (butlast (tl (Split raw NUL))). length (Split f (CHR ''='')) \<noteq> 2) \<longrightarrow>
           (\<exists>env. ParseUEvent pf raw =
              Inr (Some \<lparr>Action = a, KObj = k, Env = env\<rparr>, Some ErrWrongEnv))))) \<and>
   ParseUEvent pf (''add@/devices/foo'' @ [NUL] @ ''DEVPATH=/devices/foo'' @ [NUL]) =
     Inr (Some \<lparr>Action = ''add'', KObj = ''/devices/foo'',
                Env = [''DEVPATH'' \<mapsto> ''/devices/foo'']\<rparr>, None)"
proof (intro conjI impI allI)
  assume "length raw \<le> 40 \<or> take 8 raw \<noteq> ''libudev'' @ [NUL]"
    and "length (Split (hd (Split raw NUL)) (CHR ''@'')) \<noteq> 2"
  then show "ParseUEvent pf raw = Inr (None, Some ErrWrongHeader)"
    by (auto simp add: ParseUEvent_def libudev_prefix_def parseKernelFormat_bad_header)
next
  fix a k
  assume native: "length raw \<le> 40 \<or> take 8 raw \<noteq> ''libudev'' @ [NUL]"
    and hdr: "Split (hd (Split raw NUL)) (CHR ''@'') = [a, k]
          \<and> a \<in> set [ADD, REMOVE, CHANGE, MOVE, ONLINE, OFFLINE, BIND, UNBIND]
          \<and> NUL \<in> set raw"
    and ok: "\<forall>f \<in> set (butlast (tl (Split raw NUL))). length (Split f (CHR ''='')) = 2"
  from native have "ParseUEvent pf raw = parseKernelFormat raw"
    by (auto simp add: ParseUEvent_def libudev_prefix_def)
  also from hdr have "\<dots> = Inr (Some \<lparr>Action = a, KObj = k,
                Env = fst (env_loop ErrWrongEnv (butlast (tl (Split raw NUL))) Map.empty)\<rparr>,
          snd (env_loop ErrWrongEnv (butlast (tl (Split raw NUL))) Map.empty))"
    by (intro parseKernelFormat_env) simp_all
  finally show "ParseUEvent pf raw =
             Inr (Some \<lparr>Action = a, KObj = k,
                        Env = map_of (rev (map (\<lambda>f. (Split f (CHR ''='') ! 0, Split f (CHR ''='') ! 1))
                                (butlast (tl (Split raw NUL)))))\<rparr>, None)"
    by (simp add: env_loop_ok [OF ok])
next
  fix a k
  assume native: "length raw \<le> 40 \<or> take 8 raw \<noteq> ''libudev'' @ [NUL]"
    and hdr: "Split (hd (Split raw NUL)) (CHR ''@'') = [a, k]
          \<and> a \<in> set [ADD, REMOVE, CHANGE, MOVE, ONLINE, OFFLINE, BIND, UNBIND]
          \<and> NUL \<in> set raw"
    and bad: "\<exists>f \<in> set (butlast (tl (Split raw NUL))). length (Split f (CHR ''='')) \<noteq> 2"
  from native have "ParseUEvent pf raw = parseKernelFormat raw"
    by (auto simp add: ParseUEvent_def libudev_prefix_def)
  also from hdr have "\<dots> = Inr (Some \<lparr>Action = a, KObj = k,
                Env = fst (env_loop ErrWrongEnv (butlast (tl (Split raw NUL))) Map.empty)\<rparr>,
          snd (env_loop ErrWrongEnv (butlast (tl (Split raw NUL))) Map.empty))"
    by (intro parseKernelFormat_env) simp_all
  finally show "\<exists>env. ParseUEvent pf raw =
              Inr (Some \<lparr>Action = a, KObj = k, Env = env\<rparr>, Some ErrWrongEnv)"
    by (simp add: env_loop_bad [OF bad])
next
  show "ParseUEvent pf (''add@/devices/foo'' @ [NUL] @ ''DEVPATH=/devices/foo'' @ [NUL]) =
     Inr (Some \<lparr>Action = ''add'', KObj = ''/devices/foo'',
                Env = [''DEVPATH'' \<mapsto> ''/devices/foo'']\<rparr>, None)"
    by (simp add: ParseUEvent_def parseKernelFormat_def Split_def ParseKObjAction_def ADD_def
        go_slice_def libudev_prefix_def)
qed

theorem native_format_fields_witness:
  "(take 8 (''add@/devices/foo'' @ [NUL] @ ''DEVPATH=/devices/foo'' @ [NUL] @ ''SUBSYSTEM=block'' @ [NUL])
      \<noteq> ''libudev'' @ [NUL]
    \<and> NUL \<in> set (''add@/devices/foo'' @ [NUL] @ ''DEVPATH=/devices/foo'' @ [NUL] @ ''SUBSYSTEM=block'' @ [NUL])
    \<and> ParseUEvent example_platform
        (''add@/devices/foo'' @ [NUL] @ ''DEVPATH=/devices/foo'' @ [NUL] @ ''SUBSYSTEM=block'' @ [NUL]) =
        Inr (Some \<lparr>Action = ''add'', KObj = ''/devices/foo'',
                   Env = [''DEVPATH'' \<mapsto> ''/devices/foo'', ''SUBSYSTEM'' \<mapsto> ''block'']\<rparr>, None))
   \<and> (length (''add/devices/foo'' @ [NUL]) \<le> 40
    \<and> ParseUEvent example_platform (''add/devices/foo'' @ [NUL]) = Inr (None, Some ErrWrongHeader))
   \<and> (length (''add@/x'' @ [NUL] @ ''A=1'' @ [NUL] @ ''novalue'' @ [NUL]) \<le> 40
    \<and> (\<exists>env. ParseUEvent example_platform (''add@/x'' @ [NUL] @ ''A=1'' @ [NUL] @ ''novalue'' @ [NUL]) =
        Inr (Some \<lparr>Action = ''add'', KObj = ''/x'', Env = env\<rparr>, Some ErrWrongEnv)))"
proof -
  let ?b1 = "''add@/devices/foo'' @ [NUL] @ ''DEVPATH=/devices/foo'' @ [NUL] @ ''SUBSYSTEM=block'' @ [NUL]"
  let ?b2 = "''add/devices/foo'' @ [NUL]"
  let ?b3 = "''add@/x'' @ [NUL] @ ''A=1'' @ [NUL] @ ''novalue'' @ [NUL]"
  have c1: "take 8 ?b1 \<noteq> ''libudev'' @ [NUL] \<and> NUL \<in> set ?b1
     \<and> ParseUEvent example_platform ?b1 =
        Inr (Some \<lparr>Action = ''add'', KObj = ''/devices/foo'',
                   Env = [''DEVPATH'' \<mapsto> ''/devices/foo'', ''SUBSYSTEM'' \<mapsto> ''block'']\<rparr>, None)"
    using native_format_fields [of ?b1 example_platform]
    by (simp add: Split_def ADD_def)
  have c2: "length ?b2 \<le> 40 \<and> ParseUEvent example_platform ?b2 = Inr (None, Some ErrWrongHeader)"
    using native_format_fields [of ?b2 example_platform]
    by (simp add: Split_def)
  have c3: "length ?b3 \<le> 40 \<and> (\<exists>env. ParseUEvent example_platform ?b3 =
        Inr (Some \<lparr>Action = ''add'', KObj = ''/x'', Env = env\<rparr>, Some ErrWrongEnv))"
    using native_format_fields [of ?b3 example_platform]
    by (simp add: Split_def ADD_def)
  from c1 c2 c3 show ?thesis by blast
qed

text \<open>
  C2 as worded asks every field but the final empty one to split on \<open>=\<close>. A last
  field that is not empty and does not split is passed over without an error.
\<close>

theorem trailing_field_counterexample:
  "ParseUEvent example_platform (''add@/x'' @ [NUL] @ ''garbage'') =
     Inr (Some \<lparr>Action = ''add'', KObj = ''/x'', Env = Map.empty\<rparr>, None)
   \<and> Split (''add@/x'' @ [NUL] @ ''garbage'') NUL = [''add@/x'', ''garbage'']
   \<and> length (Split ''garbage'' (CHR ''='')) \<noteq> 2"
  by (simp add: ParseUEvent_def parseKernelFormat_def Split_def ParseKObjAction_def ADD_def
        go_slice_def libudev_prefix_def)

subsection \<open>The enriched format\<close>

lemma go_slice_from: "n \<le> length s \<Longrightarrow> go_slice s (int n) (int (length s)) = Inr (drop n s)"
  by (simp add: go_slice_def)

lemma go_slice_butlast: "fs \<noteq> [] \<Longrightarrow> go_slice fs 0 (int (length fs) - 1) = Inr (butlast fs)"
  by (cases fs) (auto simp add: go_slice_def butlast_conv_take nat_diff_distrib')

lemma BigEndian_Uint32_take: "4 \<le> length b \<Longrightarrow> BigEndian_Uint32 (take 4 b) = BigEndian_Uint32 b"
  by (simp add: BigEndian_Uint32_def)

lemma BigEndian_Uint32_ok: "4 \<le> length b \<Longrightarrow> \<exists>m. BigEndian_Uint32 b = Inr m"
  by (simp add: BigEndian_Uint32_def)

lemma unsafe_Uint32_ok: "i + 4 \<le> length raw \<Longrightarrow> \<exists>off. unsafe_Uint32 pf raw i = Inr off"
  by (simp add: unsafe_Uint32_def)

lemma below_len: "(off :: 32 word) < word_of_nat n \<Longrightarrow> unat off < n"
proof -
  assume "off < word_of_nat n"
  then have "unat off < unat (word_of_nat n :: 32 word)" by (simp add: word_less_nat_alt)
  also have "\<dots> \<le> n" by (simp add: unat_of_nat)
  finally show ?thesis .
qed

lemma above_len: "n \<le> unat (off :: 32 word) \<Longrightarrow> word_of_nat n \<le> off"
proof -
  assume a: "n \<le> unat off"
  have "unat (word_of_nat n :: 32 word) \<le> n" by (simp add: unat_of_nat)
  with a show ?thesis by (simp add: word_le_nat_alt)
qed

lemma parseUdevEvent_magic:
  assumes "40 < length raw" "BigEndian_Uint32 (drop 8 raw) = Inr m" "m \<noteq> libudevMagic"
  shows "parseUdevEvent pf raw = Inr (None, Some ErrMagicMismatch)"
  using assms go_slice_from [of 8 raw] by (simp add: parseUdevEvent_def)

lemma parseUdevEvent_offset:
  assumes "40 < length raw" "BigEndian_Uint32 (drop 8 raw) = Inr libudevMagic"
    "unsafe_Uint32 pf raw 16 = Inr off" "word_of_nat (length raw) \<le> off"
  shows "parseUdevEvent pf raw = Inr (None, Some ErrInvalidOffset)"
  using assms go_slice_from [of 8 raw] by (simp add: parseUdevEvent_def)

lemma parseUdevEvent_payload:
  assumes "40 < length raw" "BigEndian_Uint32 (drop 8 raw) = Inr libudevMagic"
    "unsafe_Uint32 pf raw 16 = Inr off" "off < word_of_nat (length raw)"
  shows "parseUdevEvent pf raw =
     (case env_loop ErrInvalidEnv (butlast (Split (drop (unat off) raw) NUL)) Map.empty of
        (envdata, Some err) \<Rightarrow> Inr (None, Some err)
      | (envdata, None) \<Rightarrow>
          (case ParseKObjAction (ToLower pf (go_index envdata ''ACTION'')) of
             (action, Some err) \<Rightarrow> Inr (None, Some err)
           | (action, None) \<Rightarrow>
               Inr (Some \<lparr>Action = action, KObj = go_index envdata ''DEVPATH'', Env = envdata\<rparr>,
                    None)))"
proof -
  from assms(4) have lt: "unat off < length raw" by (rule below_len)
  then have "int (unat off) < int (length raw)" by (simp only: of_nat_less_iff)
  moreover have "uint off = int (unat off)" by (rule uint_nat)
  ultimately have "uint off \<le> int (length raw)" by linarith
  then have sl: "go_slice raw (uint off) (int (length raw)) = Inr (drop (unat off) raw)"
    by (simp add: go_slice_def)
  from assms(4) have nle: "\<not> word_of_nat (length raw) \<le> off" by simp
  show ?thesis
    using assms(1-3) nle go_slice_from [of 8 raw]
    by (simp add: parseUdevEvent_def sl Let_def Split_not_Nil go_slice_butlast)
qed

lemma parseKernelFormat_Some:
  "parseKernelFormat raw = Inr (Some e, err) \<Longrightarrow>
   Action e \<in> set [ADD, REMOVE, CHANGE, MOVE, ONLINE, OFFLINE, BIND, UNBIND]"
  unfolding parseKernelFormat_def Let_def ParseKObjAction_def
  by (auto split: if_splits sum.splits prod.splits option.splits)

lemma parseUdevEvent_Some:
  "parseUdevEvent pf raw = Inr (Some e, err) \<Longrightarrow>
   err = None
   \<and> Action e \<in> set [ADD, REMOVE, CHANGE, MOVE, ONLINE, OFFLINE, BIND, UNBIND]
   \<and> Action e = ToLower pf (go_index (Env e) ''ACTION'')
   \<and> KObj e = go_index (Env e) ''DEVPATH''"
  unfolding parseUdevEvent_def Let_def ParseKObjAction_def
  by (auto split: if_splits sum.splits prod.splits option.splits)

lemma parseUdevEvent_no_fault:
  "40 < length raw \<Longrightarrow> parseUdevEvent pf raw \<noteq> Inl f"
proof -
  assume len: "40 < length raw"
  from len have "4 \<le> length (drop 8 raw)" by simp
  then obtain m where m: "BigEndian_Uint32 (drop 8 raw) = Inr m"
    using BigEndian_Uint32_ok by blast
  from len have "16 + 4 \<le> length raw" by simp
  then obtain off where off: "unsafe_Uint32 pf raw 16 = Inr off"
    using unsafe_Uint32_ok by blast
  show ?thesis
  proof (cases "m = libudevMagic")
    case False
    then show ?thesis using parseUdevEvent_magic [OF len m] by simp
  next
    case True
    show ?thesis
    proof (cases "off < word_of_nat (length raw)")
      case False
      then have "word_of_nat (length raw) \<le> off" by simp
      then show ?thesis using parseUdevEvent_offset [OF len _ off] m True by simp
    next
      case lt: True
      show ?thesis
        using parseUdevEvent_payload [OF len _ off lt] m True
        by (simp add: ParseKObjAction_def split: prod.splits option.splits)
    qed
  qed
qed

lemma enriched_dispatch:
  "length raw > 40 \<and> take 8 raw = ''libudev'' @ [NUL] \<Longrightarrow> ParseUEvent pf raw = parseUdevEvent pf raw"
  by (simp add: ParseUEvent_def libudev_prefix_def)

lemma native_dispatch:
  "length raw \<le> 40 \<or> take 8 raw \<noteq> ''libudev'' @ [NUL] \<Longrightarrow> ParseUEvent pf raw = parseKernelFormat raw"
  by (auto simp add: ParseUEvent_def libudev_prefix_def)

lemma or_push_nat: "x < 2 ^ n \<Longrightarrow> (x::nat) OR push_bit n y = x + push_bit n y"
proof -
  assume "x < 2 ^ n"
  then have x: "take_bit n x = x" by (simp add: take_bit_nat_eq_self)
  have "take_bit n x + push_bit n y = take_bit n x OR push_bit n y"
    by (rule disjunctive_add) (auto simp add: bit_simps)
  with x show ?thesis by simp
qed

lemma of_char_lt: "(of_char c :: nat) < 256"
  using of_char_mod_256 [of c, where ?'a = nat] by (metis mod_less_divisor zero_less_numeral)

lemma bytes_value_nat:
  assumes "(a::nat) < 256" "(b::nat) < 256" "(c::nat) < 256" "(d::nat) < 256"
  shows "a OR push_bit 8 b OR push_bit 16 c OR push_bit 24 d = a + 2 ^ 8 * b + 2 ^ 16 * c + 2 ^ 24 * d"
proof -
  have "a OR push_bit 8 b OR push_bit 16 c OR push_bit 24 d
      = a OR push_bit 8 (b OR push_bit 8 (c OR push_bit 8 d))"
    by (simp add: push_bit_or push_bit_push_bit or.assoc)
  also have "\<dots> = a + push_bit 8 (b + push_bit 8 (c + push_bit 8 d))"
    using assms by (simp add: or_push_nat)
  also have "\<dots> = a + 2 ^ 8 * b + 2 ^ 16 * c + 2 ^ 24 * d"
    by (simp add: push_bit_eq_mult algebra_simps)
  finally show ?thesis .
qed

lemma bytes_value_bound:
  "(a::nat) < 256 \<Longrightarrow> (b::nat) < 256 \<Longrightarrow> (c::nat) < 256 \<Longrightarrow> (d::nat) < 256 \<Longrightarrow>
   a + 2 ^ 8 * b + 2 ^ 16 * c + 2 ^ 24 * d < 2 ^ 32"
  by simp

lemma bytes_value_word:
  "unat (of_char a OR push_bit 8 (of_char b) OR push_bit 16 (of_char c) OR push_bit 24 (of_char d) :: 32 word)
     = of_char a + 2 ^ 8 * of_char b + 2 ^ 16 * of_char c + 2 ^ 24 * of_char d"
proof -
  let ?n = "(of_char a :: nat) OR push_bit 8 (of_char b) OR push_bit 16 (of_char c) OR push_bit 24 (of_char d)"
  have w: "(of_char a OR push_bit 8 (of_char b) OR push_bit 16 (of_char c) OR push_bit 24 (of_char d) :: 32 word)
      = word_of_nat ?n"
    by (simp add: of_nat_or_eq of_nat_of_char flip: push_bit_of_nat)
  have v: "?n = of_char a + 2 ^ 8 * of_char b + 2 ^ 16 * of_char c + 2 ^ 24 * of_char d"
    by (rule bytes_value_nat) (rule of_char_lt)+
  have "?n < 2 ^ 32"
    unfolding v by (rule bytes_value_bound) (rule of_char_lt)+
  then have "unat (word_of_nat ?n :: 32 word) = ?n"
    by (simp add: unat_of_nat take_bit_nat_eq_self)
  with w v show ?thesis by simp
qed

lemma BigEndian_Uint32_value:
  "4 \<le> length b \<Longrightarrow>
   \<exists>w. BigEndian_Uint32 b = Inr w \<and>
       unat w = 2 ^ 24 * of_char (b ! 0) + 2 ^ 16 * of_char (b ! 1) + 2 ^ 8 * of_char (b ! 2)
                + of_char (b ! 3)"
  by (simp add: BigEndian_Uint32_def bytes_value_word)

lemma unsafe_Uint32_value:
  "i + 4 \<le> length raw \<Longrightarrow>
   \<exists>w. unsafe_Uint32 pf raw i = Inr w \<and>
       unat w = (if little_endian pf
                 then of_char (raw ! i) + 2 ^ 8 * of_char (raw ! (i + 1))
                      + 2 ^ 16 * of_char (raw ! (i + 2)) + 2 ^ 24 * of_char (raw ! (i + 3))
                 else 2 ^ 24 * of_char (raw ! i) + 2 ^ 16 * of_char (raw ! (i + 1))
                      + 2 ^ 8 * of_char (raw ! (i + 2)) + of_char (raw ! (i + 3)))"
  by (simp add: unsafe_Uint32_def bytes_value_word)

text \<open>
  C3. For a buffer taking the enriched path, the two header checks run in this
  order. If bytes 8 to 12, read as a big-endian unsigned 32-bit integer, are not
  \<open>0xFEEDCAFE\<close>, parsing fails with the magic-mismatch error and yields no event.
  Past that check, if the native-endian 32-bit payload offset at bytes 16 to 20 is
  at least the length of the buffer, parsing fails with the invalid-offset error
  and yields no event. So a buffer whose offset is at least its length never
  yields an event: it fails with the error of the first check it does not pass.
\<close>

theorem enriched_header_checks:
  "length raw > 40 \<and> take 8 raw = ''libudev'' @ [NUL] \<longrightarrow>
     ((2 ^ 24 * of_char (raw ! 8) + 2 ^ 16 * of_char (raw ! 9) + 2 ^ 8 * of_char (raw ! 10)
        + of_char (raw ! 11) :: nat) \<noteq> 0xFEEDCAFE \<longrightarrow>
        ParseUEvent pf raw = Inr (None, Some ErrMagicMismatch)) \<and>
     ((2 ^ 24 * of_char (raw ! 8) + 2 ^ 16 * of_char (raw ! 9) + 2 ^ 8 * of_char (raw ! 10)
        + of_char (raw ! 11) :: nat) = 0xFEEDCAFE
      \<and> length raw \<le>
          (if little_endian pf
           then of_char (raw ! 16) + 2 ^ 8 * of_char (raw ! 17)
                + 2 ^ 16 * of_char (raw ! 18) + 2 ^ 24 * of_char (raw ! 19)
           else 2 ^ 24 * of_char (raw ! 16) + 2 ^ 16 * of_char (raw ! 17)
                + 2 ^ 8 * of_char (raw ! 18) + of_char (raw ! 19)) \<longrightarrow>
        ParseUEvent pf raw = Inr (None, Some ErrInvalidOffset)) \<and>
     (length raw \<le>
          (if little_endian pf
           then of_char (raw ! 16) + 2 ^ 8 * of_char (raw ! 17)
                + 2 ^ 16 * of_char (raw ! 18) + 2 ^ 24 * of_char (raw ! 19)
           else 2 ^ 24 * of_char (raw ! 16) + 2 ^ 16 * of_char (raw ! 17)
                + 2 ^ 8 * of_char (raw ! 18) + of_char (raw ! 19)) \<longrightarrow>
        ParseUEvent pf raw =
          Inr (None, Some (if (2 ^ 24 * of_char (raw ! 8) + 2 ^ 16 * of_char (raw ! 9)
                               + 2 ^ 8 * of_char (raw ! 10) + of_char (raw ! 11) :: nat)
                              = 0xFEEDCAFE
                           then ErrInvalidOffset else ErrMagicMismatch)))"
proof (intro impI)
  assume enr: "length raw > 40 \<and> take 8 raw = ''libudev'' @ [NUL]"
  then have len: "40 < length raw" by simp
  let ?magic = "2 ^ 24 * of_char (raw ! 8) + 2 ^ 16 * of_char (raw ! 9) + 2 ^ 8 * of_char (raw ! 10)
        + of_char (raw ! 11) :: nat"
  let ?offset = "if little_endian pf
           then of_char (raw ! 16) + 2 ^ 8 * of_char (raw ! 17)
                + 2 ^ 16 * of_char (raw ! 18) + 2 ^ 24 * of_char (raw ! 19)
           else 2 ^ 24 * of_char (raw ! 16) + 2 ^ 16 * of_char (raw ! 17)
                + 2 ^ 8 * of_char (raw ! 18) + of_char (raw ! 19) :: nat"
  from len have "4 \<le> length (drop 8 raw)" by simp
  from BigEndian_Uint32_value [OF this] len
  obtain m where m: "BigEndian_Uint32 (drop 8 raw) = Inr m" and mv: "unat m = ?magic"
    by (auto simp add: add.commute)
  from len have "16 + 4 \<le> length raw" by simp
  from unsafe_Uint32_value [OF this, of pf]
  obtain off where off: "unsafe_Uint32 pf raw 16 = Inr off" and offv: "unat off = ?offset"
    by auto
  have magic_iff: "m = libudevMagic \<longleftrightarrow> ?magic = 0xFEEDCAFE"
  proof -
    have "m = libudevMagic \<longleftrightarrow> unat m = unat libudevMagic" by (simp add: word_unat_eq_iff)
    also have "unat libudevMagic = 0xFEEDCAFE" by (simp add: libudevMagic_def)
    finally show ?thesis by (simp only: mv)
  qed
  have A: "?magic \<noteq> 0xFEEDCAFE \<longrightarrow> ParseUEvent pf raw = Inr (None, Some ErrMagicMismatch)"
  proof
    assume "?magic \<noteq> 0xFEEDCAFE"
    with magic_iff have "m \<noteq> libudevMagic" by blast
    from parseUdevEvent_magic [OF len m this] enriched_dispatch [OF enr]
    show "ParseUEvent pf raw = Inr (None, Some ErrMagicMismatch)" by simp
  qed
  have B: "?magic = 0xFEEDCAFE \<and> length raw \<le> ?offset \<longrightarrow>
        ParseUEvent pf raw = Inr (None, Some ErrInvalidOffset)"
  proof
    assume h: "?magic = 0xFEEDCAFE \<and> length raw \<le> ?offset"
    with magic_iff have mm: "BigEndian_Uint32 (drop 8 raw) = Inr libudevMagic" using m by blast
    from h offv have "length raw \<le> unat off" by (simp only:)
    then have le: "word_of_nat (length raw) \<le> off" by (rule above_len)
    from parseUdevEvent_offset [OF len mm off le] enriched_dispatch [OF enr]
    show "ParseUEvent pf raw = Inr (None, Some ErrInvalidOffset)" by simp
  qed
  from A B have C: "length raw \<le> ?offset \<longrightarrow>
        ParseUEvent pf raw =
          Inr (None, Some (if ?magic = 0xFEEDCAFE then ErrInvalidOffset else ErrMagicMismatch))"
    by (cases "?magic = 0xFEEDCAFE") (simp_all only: if_True if_False simp_thms)
  from A B C show "(?magic \<noteq> 0xFEEDCAFE \<longrightarrow> ParseUEvent pf raw = Inr (None, Some ErrMagicMismatch)) \<and>
     (?magic = 0xFEEDCAFE \<and> length raw \<le> ?offset \<longrightarrow>
        ParseUEvent pf raw = Inr (None, Some ErrInvalidOffset)) \<and>
     (length raw \<le> ?offset \<longrightarrow>
        ParseUEvent pf raw =
          Inr (None, Some (if ?magic = 0xFEEDCAFE then ErrInvalidOffset else ErrMagicMismatch)))"
    by blast
qed

theorem enriched_header_checks_witness:
  "ParseUEvent example_platform
     (''libudev'' @ [NUL] @ [CHR 0xFE, CHR 0xED, CHR 0xCA, CHR 0xFF] @ [NUL, NUL, NUL, NUL]
       @ [CHR 0x18, NUL, NUL, NUL] @ [NUL, NUL, NUL, NUL]
       @ ''ACTION=change'' @ [NUL] @ ''DEVPATH=/devices/bar'' @ [NUL])
     = Inr (None, Some ErrMagicMismatch)
   \<and> length (''libudev'' @ [NUL] @ [CHR 0xFE, CHR 0xED, CHR 0xCA, CHR 0xFE] @ [NUL, NUL, NUL, NUL]
       @ [CHR 0x3B, NUL, NUL, NUL] @ [NUL, NUL, NUL, NUL]
       @ ''ACTION=change'' @ [NUL] @ ''DEVPATH=/devices/bar'' @ [NUL]) = 59
   \<and> ParseUEvent example_platform
     (''libudev'' @ [NUL] @ [CHR 0xFE, CHR 0xED, CHR 0xCA, CHR 0xFE] @ [NUL, NUL, NUL, NUL]
       @ [CHR 0x3B, NUL, NUL, NUL] @ [NUL, NUL, NUL, NUL]
       @ ''ACTION=change'' @ [NUL] @ ''DEVPATH=/devices/bar'' @ [NUL])
     = Inr (None, Some ErrInvalidOffset)"
proof -
  let ?b1 = "''libudev'' @ [NUL] @ [CHR 0xFE, CHR 0xED, CHR 0xCA, CHR 0xFF] @ [NUL, NUL, NUL, NUL]
       @ [CHR 0x18, NUL, NUL, NUL] @ [NUL, NUL, NUL, NUL]
       @ ''ACTION=change'' @ [NUL] @ ''DEVPATH=/devices/bar'' @ [NUL]"
  let ?b2 = "''libudev'' @ [NUL] @ [CHR 0xFE, CHR 0xED, CHR 0xCA, CHR 0xFE] @ [NUL, NUL, NUL, NUL]
       @ [CHR 0x3B, NUL, NUL, NUL] @ [NUL, NUL, NUL, NUL]
       @ ''ACTION=change'' @ [NUL] @ ''DEVPATH=/devices/bar'' @ [NUL]"
  have c1: "ParseUEvent example_platform ?b1 = Inr (None, Some ErrMagicMismatch)"
    using enriched_header_checks [of ?b1 example_platform]
    by simp
  have l2: "length ?b2 = 59" by simp
  have c2: "ParseUEvent example_platform ?b2 = Inr (None, Some ErrInvalidOffset)"
    using enriched_header_checks [of ?b2 example_platform]
    by (simp add: example_platform_def)
  from c1 l2 c2 show ?thesis by blast
qed

subsection \<open>Actions\<close>



text \<open>
  C4. The valid actions are the eight strings \<open>add\<close>, \<open>remove\<close>, \<open>change\<close>, \<open>move\<close>,
  \<open>online\<close>, \<open>offline\<close>, \<open>bind\<close> and \<open>unbind\<close>. On every buffer, an event that
  \<^verbatim>\<open>ParseUEvent\<close> returns has one of them as its action. A native buffer whose
  header gives any other action string fails with the unknown-action error, and
  so does an enriched buffer whose lower-cased \<open>ACTION\<close> value is any other string;
  no event is returned. The native action is compared as it stands: \<open>ADD\<close> is unknown.
\<close>

theorem action_validated:
  "set [ADD, REMOVE, CHANGE, MOVE, ONLINE, OFFLINE, BIND, UNBIND] =
     {''add'', ''remove'', ''change'', ''move'', ''online'', ''offline'', ''bind'', ''unbind''} \<and>
   (\<forall>e err. ParseUEvent pf raw = Inr (Some e, err) \<longrightarrow>
      Action e \<in> set [ADD, REMOVE, CHANGE, MOVE, ONLINE, OFFLINE, BIND, UNBIND]) \<and>
   (length raw \<le> 40 \<or> take 8 raw \<noteq> ''libudev'' @ [NUL] \<longrightarrow>
      (\<forall>a k. Split (hd (Split raw NUL)) (CHR ''@'') = [a, k]
           \<and> a \<notin> set [ADD, REMOVE, CHANGE, MOVE, ONLINE, OFFLINE, BIND, UNBIND] \<longrightarrow>
         ParseUEvent pf raw = Inr (None, Some (ErrUnknownAction a)))) \<and>
   (length raw > 40 \<and> take 8 raw = ''libudev'' @ [NUL] \<longrightarrow>
      (\<forall>off envdata.
         BigEndian_Uint32 (take 4 (drop 8 raw)) = Inr 0xFEEDCAFE
         \<and> unsafe_Uint32 pf raw 16 = Inr off \<and> off < word_of_nat (length raw)
         \<and> env_loop ErrInvalidEnv (butlast (Split (drop (unat off) raw) NUL)) Map.empty
             = (envdata, None)
         \<and> ToLower pf (go_index envdata ''ACTION'')
             \<notin> set [ADD, REMOVE, CHANGE, MOVE, ONLINE, OFFLINE, BIND, UNBIND] \<longrightarrow>
         ParseUEvent pf raw =
           Inr (None, Some (ErrUnknownAction (ToLower pf (go_index envdata ''ACTION'')))))) \<and>
   ParseUEvent pf (''ADD@/devices/foo'' @ [NUL]) = Inr (None, Some (ErrUnknownAction ''ADD''))"
proof (intro conjI allI impI)
  show "set [ADD, REMOVE, CHANGE, MOVE, ONLINE, OFFLINE, BIND, UNBIND] =
     {''add'', ''remove'', ''change'', ''move'', ''online'', ''offline'', ''bind'', ''unbind''}"
    by (simp add: ADD_def REMOVE_def CHANGE_def MOVE_def ONLINE_def OFFLINE_def BIND_def UNBIND_def)
next
  fix e err
  assume r: "ParseUEvent pf raw = Inr (Some e, err)"
  show "Action e \<in> set [ADD, REMOVE, CHANGE, MOVE, ONLINE, OFFLINE, BIND, UNBIND]"
  proof (cases "length raw > 40 \<and> take 8 raw = libudev_prefix")
    case True
    with r have "parseUdevEvent pf raw = Inr (Some e, err)" by (simp add: ParseUEvent_def)
    then show ?thesis using parseUdevEvent_Some by blast
  next
    case False
    with r have "parseKernelFormat raw = Inr (Some e, err)" by (simp add: ParseUEvent_def)
    then show ?thesis by (rule parseKernelFormat_Some)
  qed
next
  fix a k
  assume native: "length raw \<le> 40 \<or> take 8 raw \<noteq> ''libudev'' @ [NUL]"
    and h: "Split (hd (Split raw NUL)) (CHR ''@'') = [a, k]
           \<and> a \<notin> set [ADD, REMOVE, CHANGE, MOVE, ONLINE, OFFLINE, BIND, UNBIND]"
  from h have "parseKernelFormat raw = Inr (None, Some (ErrUnknownAction a))"
    by (intro parseKernelFormat_bad_action) simp_all
  with native_dispatch [OF native]
  show "ParseUEvent pf raw = Inr (None, Some (ErrUnknownAction a))" by simp
next
  fix off envdata
  assume enr: "length raw > 40 \<and> take 8 raw = ''libudev'' @ [NUL]"
    and h: "BigEndian_Uint32 (take 4 (drop 8 raw)) = Inr 0xFEEDCAFE
         \<and> unsafe_Uint32 pf raw 16 = Inr off \<and> off < word_of_nat (length raw)
         \<and> env_loop ErrInvalidEnv (butlast (Split (drop (unat off) raw) NUL)) Map.empty
             = (envdata, None)
         \<and> ToLower pf (go_index envdata ''ACTION'')
             \<notin> set [ADD, REMOVE, CHANGE, MOVE, ONLINE, OFFLINE, BIND, UNBIND]"
  from enr have len: "40 < length raw" by simp
  from h len have m: "BigEndian_Uint32 (drop 8 raw) = Inr libudevMagic"
    by (simp add: BigEndian_Uint32_take libudevMagic_def)
  from h have off: "unsafe_Uint32 pf raw 16 = Inr off" and lt: "off < word_of_nat (length raw)"
    by simp_all
  from h have "parseUdevEvent pf raw =
      Inr (None, Some (ErrUnknownAction (ToLower pf (go_index envdata ''ACTION''))))"
    by (simp add: parseUdevEvent_payload [OF len m off lt] ParseKObjAction_def)
  with enriched_dispatch [OF enr]
  show "ParseUEvent pf raw =
      Inr (None, Some (ErrUnknownAction (ToLower pf (go_index envdata ''ACTION''))))" by simp
next
  show "ParseUEvent pf (''ADD@/devices/foo'' @ [NUL]) = Inr (None, Some (ErrUnknownAction ''ADD''))"
    by (simp add: ParseUEvent_def parseKernelFormat_def Split_def ParseKObjAction_def
        ADD_def REMOVE_def CHANGE_def MOVE_def ONLINE_def OFFLINE_def BIND_def UNBIND_def)
qed

theorem action_validated_witness:
  "(ParseUEvent example_platform (''remove@/devices/foo'' @ [NUL]) =
      Inr (Some \<lparr>Action = ''remove'', KObj = ''/devices/foo'', Env = Map.empty\<rparr>, None)
    \<and> ''remove'' \<in> set [ADD, REMOVE, CHANGE, MOVE, ONLINE, OFFLINE, BIND, UNBIND])
   \<and> (length (''frobnicate@/devices/foo'' @ [NUL]) \<le> 40
    \<and> ParseUEvent example_platform (''frobnicate@/devices/foo'' @ [NUL]) =
      Inr (None, Some (ErrUnknownAction ''frobnicate'')))
   \<and> (length (''libudev'' @ [NUL] @ [CHR 0xFE, CHR 0xED, CHR 0xCA, CHR 0xFE] @ [NUL, NUL, NUL, NUL]
         @ [CHR 0x18, NUL, NUL, NUL] @ [NUL, NUL, NUL, NUL]
         @ ''ACTION=explode'' @ [NUL] @ ''DEVPATH=/devices/bar'' @ [NUL]) > 40
    \<and> ParseUEvent example_platform
        (''libudev'' @ [NUL] @ [CHR 0xFE, CHR 0xED, CHR 0xCA, CHR 0xFE] @ [NUL, NUL, NUL, NUL]
         @ [CHR 0x18, NUL, NUL, NUL] @ [NUL, NUL, NUL, NUL]
         @ ''ACTION=explode'' @ [NUL] @ ''DEVPATH=/devices/bar'' @ [NUL]) =
      Inr (None, Some (ErrUnknownAction ''explode'')))"
proof -
  let ?b1 = "''remove@/devices/foo'' @ [NUL]"
  let ?b2 = "''frobnicate@/devices/foo'' @ [NUL]"
  let ?b3 = "''libudev'' @ [NUL] @ [CHR 0xFE, CHR 0xED, CHR 0xCA, CHR 0xFE] @ [NUL, NUL, NUL, NUL]
         @ [CHR 0x18, NUL, NUL, NUL] @ [NUL, NUL, NUL, NUL]
         @ ''ACTION=explode'' @ [NUL] @ ''DEVPATH=/devices/bar'' @ [NUL]"
  have p1: "ParseUEvent example_platform ?b1 =
      Inr (Some \<lparr>Action = ''remove'', KObj = ''/devices/foo'', Env = Map.empty\<rparr>, None)"
    by (simp add: ParseUEvent_def parseKernelFormat_def Split_def ParseKObjAction_def
        go_slice_def ADD_def REMOVE_def)
  have c1: "''remove'' \<in> set [ADD, REMOVE, CHANGE, MOVE, ONLINE, OFFLINE, BIND, UNBIND]"
    using action_validated [of example_platform ?b1] p1 by fastforce
  have c2: "length ?b2 \<le> 40 \<and> ParseUEvent example_platform ?b2 =
      Inr (None, Some (ErrUnknownAction ''frobnicate''))"
    using action_validated [of example_platform ?b2]
    by (simp add: Split_def ADD_def REMOVE_def CHANGE_def MOVE_def ONLINE_def OFFLINE_def
        BIND_def UNBIND_def)
  have c3: "length ?b3 > 40 \<and> ParseUEvent example_platform ?b3 =
      Inr (None, Some (ErrUnknownAction ''explode''))"
    using action_validated [of example_platform ?b3]
    by (simp add: Split_def BigEndian_Uint32_def unsafe_Uint32_def example_platform_def
        go_index_def ToLower_def lower_byte_def
        ADD_def REMOVE_def CHANGE_def MOVE_def ONLINE_def OFFLINE_def BIND_def UNBIND_def)
  from p1 c1 c2 c3 show ?thesis by blast
qed




subsection \<open>Totality\<close>

lemma parseKernelFormat_result:
  "NUL \<in> set raw \<Longrightarrow> \<exists>e err. parseKernelFormat raw = Inr (e, err)"
proof -
  assume nul: "NUL \<in> set raw"
  show ?thesis
  proof (cases "length (Split (hd (Split raw NUL)) (CHR ''@'')) = 2")
    case False
    then show ?thesis by (simp add: parseKernelFormat_bad_header)
  next
    case True
    then obtain a k where hk: "Split (hd (Split raw NUL)) (CHR ''@'') = [a, k]"
      by (cases "Split (hd (Split raw NUL)) (CHR ''@'')" rule: list.exhaust)
        (auto simp add: length_Suc_conv)
    show ?thesis
    proof (cases "a \<in> set [ADD, REMOVE, CHANGE, MOVE, ONLINE, OFFLINE, BIND, UNBIND]")
      case False
      with hk show ?thesis using parseKernelFormat_bad_action by blast
    next
      case True
      with hk nul show ?thesis using parseKernelFormat_env by blast
    qed
  qed
qed

lemma ParseUEvent_fault_iff:
  "ParseUEvent pf raw = Inl f \<longleftrightarrow>
     (length raw \<le> 40 \<or> take 8 raw \<noteq> ''libudev'' @ [NUL]) \<and> NUL \<notin> set raw
     \<and> (\<exists>a k. Split raw (CHR ''@'') = [a, k]
            \<and> a \<in> set [ADD, REMOVE, CHANGE, MOVE, ONLINE, OFFLINE, BIND, UNBIND])
     \<and> f = SliceBounds 1 0"
proof (cases "length raw > 40 \<and> take 8 raw = ''libudev'' @ [NUL]")
  case True
  then have "ParseUEvent pf raw = parseUdevEvent pf raw" by (rule enriched_dispatch)
  with True parseUdevEvent_no_fault [of raw pf f] show ?thesis by auto
next
  case False
  then have native: "length raw \<le> 40 \<or> take 8 raw \<noteq> ''libudev'' @ [NUL]" by auto
  then have d: "ParseUEvent pf raw = parseKernelFormat raw" by (rule native_dispatch)
  show ?thesis
  proof (cases "NUL \<in> set raw")
    case True
    with parseKernelFormat_result [OF True] d show ?thesis by auto
  next
    case nonul: False
    then have hd: "hd (Split raw NUL) = raw" by (simp add: Split_notin)
    show ?thesis
    proof (cases "length (Split raw (CHR ''@'')) = 2")
      case False
      with hd have "parseKernelFormat raw = Inr (None, Some ErrWrongHeader)"
        by (simp add: parseKernelFormat_bad_header)
      with d False show ?thesis by auto
    next
      case True
      then obtain a k where hk: "Split raw (CHR ''@'') = [a, k]"
        by (cases "Split raw (CHR ''@'')" rule: list.exhaust) (auto simp add: length_Suc_conv)
      show ?thesis
      proof (cases "a \<in> set [ADD, REMOVE, CHANGE, MOVE, ONLINE, OFFLINE, BIND, UNBIND]")
        case False
        with hk hd have "parseKernelFormat raw = Inr (None, Some (ErrUnknownAction a))"
          by (simp add: parseKernelFormat_bad_action)
        with d hk False show ?thesis by auto
      next
        case True
        with hk hd nonul have "parseKernelFormat raw = Inl (SliceBounds 1 0)"
          by (simp add: parseKernelFormat_panic)
        with d hk True native nonul show ?thesis by auto
      qed
    qed
  qed
qed

text \<open>
  C7. \<^verbatim>\<open>ParseUEvent\<close> should return an event or an error on every buffer. It
  terminates on every buffer, and \<open>ParseUEvent_fault_iff\<close> says where it panics:
  on exactly the native buffers without a NUL byte that are a valid header. On
  such a buffer, \<open>add@/devices/foo\<close> for one, the slice
  \<^verbatim>\<open>fields[1 : len(fields)-1]\<close> is \<^verbatim>\<open>fields[1:0]\<close>, out of bounds.
\<close>

theorem unterminated_header_panics:
  "ParseUEvent example_platform ''add@/devices/foo'' = Inl (SliceBounds 1 0)"
  by (simp add: ParseUEvent_def parseKernelFormat_def Split_def ParseKObjAction_def ADD_def
      go_slice_def)

subsection \<open>Encoding and parsing again\<close>

lemma Split_Nil: "Split [] c = [[]]"
  by (simp add: Split_def)

lemma Split_terminated:
  "\<forall>x \<in> set xs. c \<notin> set (g x) \<Longrightarrow>
   Split (concat (map (\<lambda>x. g x @ [c]) xs)) c = map g xs @ [[]]"
proof (induction xs)
  case Nil
  then show ?case by (simp add: Split_Nil)
next
  case (Cons x xs)
  then have "c \<notin> set (g x)" by simp
  from Split_append [OF this, of "concat (map (\<lambda>x. g x @ [c]) xs)"] Cons
  show ?case by simp
qed

lemma Split_pair: "c \<notin> set a \<Longrightarrow> c \<notin> set b \<Longrightarrow> Split (a @ c # b) c = [a, b]"
  by (simp add: Split_append Split_notin)

lemma valid_action_chars:
  "a \<in> set [ADD, REMOVE, CHANGE, MOVE, ONLINE, OFFLINE, BIND, UNBIND] \<Longrightarrow>
   NUL \<notin> set a \<and> CHR ''@'' \<notin> set a"
  by (auto simp add: ADD_def REMOVE_def CHANGE_def MOVE_def ONLINE_def OFFLINE_def BIND_def UNBIND_def)

lemma valid_action_not_libudev:
  "a \<in> set [ADD, REMOVE, CHANGE, MOVE, ONLINE, OFFLINE, BIND, UNBIND] \<Longrightarrow>
   take 8 (a @ rest) \<noteq> libudev_prefix"
  by (auto simp add: ADD_def REMOVE_def CHANGE_def MOVE_def ONLINE_def OFFLINE_def BIND_def UNBIND_def
      libudev_prefix_def)

lemma env_loop_encoded:
  "\<forall>k \<in> set ks. CHR ''='' \<notin> set k \<and> CHR ''='' \<notin> set (go_index m k) \<Longrightarrow>
   env_loop bad (map (\<lambda>k. k @ ''='' @ go_index m k) ks) acc =
     (\<lambda>x. if x \<in> set ks then Some (go_index m x) else acc x, None)"
proof (induction ks arbitrary: acc)
  case Nil
  then show ?case by simp
next
  case (Cons k ks)
  then have sp: "Split (k @ CHR ''='' # go_index m k) (CHR ''='') = [k, go_index m k]"
    by (simp add: Split_pair)
  have "env_loop bad (map (\<lambda>k. k @ ''='' @ go_index m k) (k # ks)) acc =
        env_loop bad (map (\<lambda>k. k @ ''='' @ go_index m k) ks) (acc(k \<mapsto> go_index m k))"
    by (simp add: sp Let_def)
  also have "\<dots> = (\<lambda>x. if x \<in> set ks then Some (go_index m x)
                      else (acc(k \<mapsto> go_index m k)) x, None)"
    using Cons by simp
  also have "(\<lambda>x. if x \<in> set ks then Some (go_index m x) else (acc(k \<mapsto> go_index m k)) x)
      = (\<lambda>x. if x \<in> set (k # ks) then Some (go_index m x) else acc x)"
    by (rule ext) simp
  finally show ?case .
qed

lemma go_index_dom: "k \<in> dom m \<Longrightarrow> m k = Some (go_index m k)"
  by (auto simp add: go_index_def)

lemma env_of_range_order:
  "range_order ks m \<Longrightarrow> (\<lambda>x. if x \<in> set ks then Some (go_index m x) else None) = m"
  by (rule ext) (auto simp add: range_order_def go_index_def split: option.splits)

lemma Equal_loop_refl: "set ks \<subseteq> dom m \<Longrightarrow> Equal_loop ks m m = (True, None)"
  by (induction ks) (auto simp add: Let_def go_index_def)

lemma UEvent_Equal_refl: "range_order ks (Env e) \<Longrightarrow> UEvent_Equal ks e e = (True, None)"
  by (simp add: UEvent_Equal_def range_order_def Equal_loop_refl)

lemma parse_encoding:
  assumes act: "Action e \<in> set [ADD, REMOVE, CHANGE, MOVE, ONLINE, OFFLINE, BIND, UNBIND]"
    and kobj: "NUL \<notin> set (KObj e)" "CHR ''@'' \<notin> set (KObj e)"
    and env: "\<forall>k v. Env e k = Some v \<longrightarrow>
              NUL \<notin> set k \<and> CHR ''='' \<notin> set k \<and> NUL \<notin> set v \<and> CHR ''='' \<notin> set v"
    and ord: "range_order ks (Env e)"
  shows "ParseUEvent pf (UEvent_String ks e) = Inr (Some e, None)"
proof -
  define hdr where "hdr = Action e @ CHR ''@'' # KObj e"
  define g where "g = (\<lambda>k. k @ CHR ''='' # go_index (Env e) k)"
  define body where "body = concat (map (\<lambda>k. g k @ [NUL]) ks)"
  have enc: "UEvent_String ks e = hdr @ NUL # body"
    by (simp add: UEvent_String_def hdr_def body_def g_def)
  from valid_action_chars [OF act] kobj have hdr_nul: "NUL \<notin> set hdr"
    by (simp add: hdr_def)
  have inenv: "\<forall>k \<in> set ks. Env e k = Some (go_index (Env e) k)"
    using ord by (auto simp add: range_order_def go_index_def)
  with env have g_nul: "\<forall>k \<in> set ks. NUL \<notin> set (g k)"
    by (fastforce simp add: g_def)
  from inenv env have g_eq: "\<forall>k \<in> set ks. CHR ''='' \<notin> set k \<and> CHR ''='' \<notin> set (go_index (Env e) k)"
    by metis
  have fields: "Split (UEvent_String ks e) NUL = hdr # (map g ks @ [[]])"
    unfolding enc body_def
    by (simp add: Split_append [OF hdr_nul] Split_terminated [OF g_nul])
  have hd: "hd (Split (UEvent_String ks e) NUL) = hdr"
    and rest: "butlast (tl (Split (UEvent_String ks e) NUL)) = map g ks"
    by (simp_all add: fields)
  have hsplit: "Split (hd (Split (UEvent_String ks e) NUL)) (CHR ''@'') = [Action e, KObj e]"
    using valid_action_chars [OF act] kobj by (simp add: hd hdr_def Split_pair)
  have nul_in: "NUL \<in> set (UEvent_String ks e)"
    by (simp add: enc)
  have loop: "env_loop ErrWrongEnv (map g ks) Map.empty = (Env e, None)"
    unfolding g_def
    using env_loop_encoded [OF g_eq, of ErrWrongEnv Map.empty] env_of_range_order [OF ord]
    by simp
  have "parseKernelFormat (UEvent_String ks e) = Inr (Some e, None)"
    by (simp add: parseKernelFormat_env [OF hsplit act nul_in] rest loop)
  moreover have "take 8 (UEvent_String ks e) \<noteq> libudev_prefix"
    using valid_action_not_libudev [OF act] by (simp add: UEvent_String_def)
  ultimately show ?thesis by (simp add: ParseUEvent_def)
qed

lemma SplitFrom_clean_all:
  "c \<notin> set cur \<Longrightarrow> \<forall>f \<in> set (SplitFrom cur s c). c \<notin> set f"
proof (induction s arbitrary: cur)
  case Nil
  then show ?case by simp
next
  case (Cons x s)
  show ?case
  proof (cases "x = c")
    case True
    have "c \<notin> set ([] :: string)" by simp
    from Cons.IH [OF this] Cons.prems True show ?thesis by simp
  next
    case False
    with Cons.prems have "c \<notin> set (cur @ [x])" by simp
    from Cons.IH [OF this] False show ?thesis by simp
  qed
qed

lemma SplitFrom_clean:
  "f \<in> set (SplitFrom cur s c) \<Longrightarrow> c \<notin> set cur \<Longrightarrow> c \<notin> set f"
  using SplitFrom_clean_all by blast

lemma Split_clean: "f \<in> set (Split s c) \<Longrightarrow> c \<notin> set f"
  using SplitFrom_clean [of f "[]" s c] by (simp add: Split_def)

lemma SplitFrom_subset:
  "f \<in> set (SplitFrom cur s c) \<Longrightarrow> set f \<subseteq> set cur \<union> set s"
  by (induction s arbitrary: cur) (fastforce split: if_splits)+

lemma Split_subset: "f \<in> set (Split s c) \<Longrightarrow> set f \<subseteq> set s"
  using SplitFrom_subset [of f "[]" s c] by (simp add: Split_def)

lemma env_loop_clean:
  "env_loop bad fs m = (m', err) \<Longrightarrow>
   \<forall>f \<in> set fs. NUL \<notin> set f \<Longrightarrow>
   \<forall>k v. m k = Some v \<longrightarrow>
      NUL \<notin> set k \<and> CHR ''='' \<notin> set k \<and> NUL \<notin> set v \<and> CHR ''='' \<notin> set v \<Longrightarrow>
   \<forall>k v. m' k = Some v \<longrightarrow>
      NUL \<notin> set k \<and> CHR ''='' \<notin> set k \<and> NUL \<notin> set v \<and> CHR ''='' \<notin> set v"
proof (induction fs arbitrary: m)
  case Nil
  then show ?case by simp
next
  case (Cons f fs)
  show ?case
  proof (cases "length (Split f (CHR ''='')) = 2")
    case False
    with Cons.prems show ?thesis by (simp add: Let_def)
  next
    case True
    then obtain k v where kv: "Split f (CHR ''='') = [k, v]"
      by (cases "Split f (CHR ''='')" rule: list.exhaust) (auto simp add: length_Suc_conv)
    then have mem: "k \<in> set (Split f (CHR ''=''))" "v \<in> set (Split f (CHR ''=''))" by simp_all
    from Cons.prems(2) have fn: "NUL \<notin> set f" by simp
    from mem Split_clean have eq: "CHR ''='' \<notin> set k" "CHR ''='' \<notin> set v" by blast+
    from mem Split_subset fn have nl: "NUL \<notin> set k" "NUL \<notin> set v" by blast+
    from Cons.prems(1) kv have loop: "env_loop bad fs (m(k \<mapsto> v)) = (m', err)"
      by (simp add: Let_def)
    have inv: "\<forall>k' v'. (m(k \<mapsto> v)) k' = Some v' \<longrightarrow>
      NUL \<notin> set k' \<and> CHR ''='' \<notin> set k' \<and> NUL \<notin> set v' \<and> CHR ''='' \<notin> set v'"
      using Cons.prems(3) eq nl by auto
    from Cons.prems(2) have rest: "\<forall>f \<in> set fs. NUL \<notin> set f" by simp
    from Cons.IH [OF loop rest inv] show ?thesis .
  qed
qed

lemma env_loop_finite:
  "env_loop bad fs m = (m', err) \<Longrightarrow> finite (dom m) \<Longrightarrow> finite (dom m')"
  by (induction fs arbitrary: m) (auto simp add: Let_def split: if_splits)

lemma parsed_native_wellformed:
  assumes "parseKernelFormat raw = Inr (Some e, None)"
  shows "Action e \<in> set [ADD, REMOVE, CHANGE, MOVE, ONLINE, OFFLINE, BIND, UNBIND]
     \<and> NUL \<notin> set (KObj e) \<and> CHR ''@'' \<notin> set (KObj e)
     \<and> (\<forall>k v. Env e k = Some v \<longrightarrow>
          NUL \<notin> set k \<and> CHR ''='' \<notin> set k \<and> NUL \<notin> set v \<and> CHR ''='' \<notin> set v)
     \<and> finite (dom (Env e))"
proof -
  let ?hdr = "hd (Split raw NUL)"
  have hdr_in: "?hdr \<in> set (Split raw NUL)" by (simp add: Split_not_Nil)
  then have hdr_nul: "NUL \<notin> set ?hdr" by (rule Split_clean)
  have two: "length (Split ?hdr (CHR ''@'')) = 2"
    using assms parseKernelFormat_bad_header [of raw] by fastforce
  then obtain a k where hk: "Split ?hdr (CHR ''@'') = [a, k]"
    by (cases "Split ?hdr (CHR ''@'')" rule: list.exhaust) (auto simp add: length_Suc_conv)
  have act: "a \<in> set [ADD, REMOVE, CHANGE, MOVE, ONLINE, OFFLINE, BIND, UNBIND]"
    using assms parseKernelFormat_bad_action [OF hk] by fastforce
  have nul: "NUL \<in> set raw"
    using assms parseKernelFormat_panic [OF hk act] by fastforce
  let ?fs = "butlast (tl (Split raw NUL))"
  from assms parseKernelFormat_env [OF hk act nul]
  have e: "e = \<lparr>Action = a, KObj = k, Env = fst (env_loop ErrWrongEnv ?fs Map.empty)\<rparr>"
    and noerr: "snd (env_loop ErrWrongEnv ?fs Map.empty) = None"
    by simp_all
  then have loop: "env_loop ErrWrongEnv ?fs Map.empty = (Env e, None)"
    by (simp add: prod_eq_iff)
  have sub: "set ?fs \<subseteq> set (Split raw NUL)"
    by (metis in_set_butlastD list.set_sel(2) Split_not_Nil subsetI)
  then have clean: "\<forall>f \<in> set ?fs. NUL \<notin> set f" using Split_clean by blast
  have kin: "k \<in> set (Split ?hdr (CHR ''@''))" by (simp add: hk)
  from kin Split_clean have k_at: "CHR ''@'' \<notin> set k" by blast
  from kin Split_subset hdr_nul have k_nul: "NUL \<notin> set k" by blast
  from env_loop_clean [OF loop clean]
  have envc: "\<forall>k v. Env e k = Some v \<longrightarrow>
          NUL \<notin> set k \<and> CHR ''='' \<notin> set k \<and> NUL \<notin> set v \<and> CHR ''='' \<notin> set v"
    by simp
  from env_loop_finite [OF loop] have fin: "finite (dom (Env e))" by simp
  from e act k_at k_nul envc fin show ?thesis by simp
qed

lemma roundtrip_of_parsed:
  assumes native: "length b \<le> 40 \<or> take 8 b \<noteq> ''libudev'' @ [NUL]"
    and parsed: "ParseUEvent pf b = Inr (Some e, None)"
  shows "(\<exists>ks. range_order ks (Env e)) \<and>
     (\<forall>ks. range_order ks (Env e) \<longrightarrow>
        ParseUEvent pf (UEvent_Bytes ks e) = Inr (Some e, None)
        \<and> UEvent_Equal ks e e = (True, None))"
proof -
  from native parsed have "parseKernelFormat b = Inr (Some e, None)"
    using native_dispatch by metis
  from parsed_native_wellformed [OF this]
  have wf: "Action e \<in> set [ADD, REMOVE, CHANGE, MOVE, ONLINE, OFFLINE, BIND, UNBIND]"
    "NUL \<notin> set (KObj e)" "CHR ''@'' \<notin> set (KObj e)"
    "\<forall>k v. Env e k = Some v \<longrightarrow>
          NUL \<notin> set k \<and> CHR ''='' \<notin> set k \<and> NUL \<notin> set v \<and> CHR ''='' \<notin> set v"
    and fin: "finite (dom (Env e))"
    by simp_all
  from finite_distinct_list [OF fin] have ex: "\<exists>ks. range_order ks (Env e)"
    by (auto simp add: range_order_def)
  have "\<forall>ks. range_order ks (Env e) \<longrightarrow>
        ParseUEvent pf (UEvent_Bytes ks e) = Inr (Some e, None)
        \<and> UEvent_Equal ks e e = (True, None)"
    using parse_encoding [OF wf] UEvent_Equal_refl by (simp add: UEvent_Bytes_def)
  with ex show ?thesis by blast
qed

text \<open>
  C6, as the code has it. Take an event whose action is one of the eight valid
  ones, whose kobject path holds neither a NUL byte nor \<open>@\<close>, and whose env keys and
  values hold neither a NUL byte nor \<open>=\<close>; every event that native parsing returns
  without an error is one (\<open>parsed_native_wellformed\<close>). Its encoding, the header
  followed by the env pairs in whatever order the map is ranged over, parses to
  an event with the same action, kobject path and env, which \<^verbatim>\<open>Equal\<close> accepts as
  equal to the original in whatever order it ranges over the env.
\<close>

theorem roundtrip_wellformed:
  assumes "Action e \<in> set [ADD, REMOVE, CHANGE, MOVE, ONLINE, OFFLINE, BIND, UNBIND]"
    and "NUL \<notin> set (KObj e)" and "CHR ''@'' \<notin> set (KObj e)"
    and "\<forall>k v. Env e k = Some v \<longrightarrow>
              NUL \<notin> set k \<and> CHR ''='' \<notin> set k \<and> NUL \<notin> set v \<and> CHR ''='' \<notin> set v"
    and "range_order ks (Env e)"
  shows "\<exists>e'. ParseUEvent pf (UEvent_Bytes ks e) = Inr (Some e', None)
           \<and> Action e' = Action e \<and> KObj e' = KObj e \<and> Env e' = Env e
           \<and> (\<forall>ks'. range_order ks' (Env e') \<longrightarrow> UEvent_Equal ks' e' e = (True, None))"
proof -
  from parse_encoding [OF assms]
  have "ParseUEvent pf (UEvent_Bytes ks e) = Inr (Some e, None)"
    by (simp add: UEvent_Bytes_def)
  then show ?thesis
    using UEvent_Equal_refl by blast
qed

theorem roundtrip_wellformed_witness:
  "ParseUEvent example_platform
     (UEvent_Bytes [''SUBSYSTEM'', ''DEVPATH'']
        \<lparr>Action = ''add'', KObj = ''/devices/foo'',
         Env = [''DEVPATH'' \<mapsto> ''/devices/foo'', ''SUBSYSTEM'' \<mapsto> ''block'']\<rparr>)
     = Inr (Some \<lparr>Action = ''add'', KObj = ''/devices/foo'',
         Env = [''DEVPATH'' \<mapsto> ''/devices/foo'', ''SUBSYSTEM'' \<mapsto> ''block'']\<rparr>, None)
   \<and> UEvent_Equal [''DEVPATH'', ''SUBSYSTEM'']
        \<lparr>Action = ''add'', KObj = ''/devices/foo'',
         Env = [''DEVPATH'' \<mapsto> ''/devices/foo'', ''SUBSYSTEM'' \<mapsto> ''block'']\<rparr>
        \<lparr>Action = ''add'', KObj = ''/devices/foo'',
         Env = [''DEVPATH'' \<mapsto> ''/devices/foo'', ''SUBSYSTEM'' \<mapsto> ''block'']\<rparr>
     = (True, None)"
proof -
  let ?e = "\<lparr>Action = ''add'', KObj = ''/devices/foo'',
         Env = [''DEVPATH'' \<mapsto> ''/devices/foo'', ''SUBSYSTEM'' \<mapsto> ''block'']\<rparr>"
  have h1: "Action ?e \<in> set [ADD, REMOVE, CHANGE, MOVE, ONLINE, OFFLINE, BIND, UNBIND]"
    by (simp add: ADD_def)
  have h2: "NUL \<notin> set (KObj ?e)" and h3: "CHR ''@'' \<notin> set (KObj ?e)"
    by simp_all
  have h4: "\<forall>k v. Env ?e k = Some v \<longrightarrow>
              NUL \<notin> set k \<and> CHR ''='' \<notin> set k \<and> NUL \<notin> set v \<and> CHR ''='' \<notin> set v"
    by (auto split: if_splits)
  have h5: "range_order [''SUBSYSTEM'', ''DEVPATH''] (Env ?e)"
    by (auto simp add: range_order_def)
  have h6: "range_order [''DEVPATH'', ''SUBSYSTEM''] (Env ?e)"
    by (auto simp add: range_order_def)
  from roundtrip_wellformed [OF h1 h2 h3 h4 h5, of example_platform]
  obtain e' where p: "ParseUEvent example_platform (UEvent_Bytes [''SUBSYSTEM'', ''DEVPATH''] ?e)
        = Inr (Some e', None)"
    and f: "Action e' = Action ?e" "KObj e' = KObj ?e" "Env e' = Env ?e"
    and q: "\<forall>ks'. range_order ks' (Env e') \<longrightarrow> UEvent_Equal ks' e' ?e = (True, None)"
    by blast
  from f have e': "e' = ?e" by (cases e') simp
  from q h6 e' have "UEvent_Equal [''DEVPATH'', ''SUBSYSTEM''] ?e ?e = (True, None)" by blast
  with p e' show ?thesis by blast
qed

text \<open>
  C6 as worded asks only that the encoding be a valid native buffer. The encoding
  does not escape its separators: an event whose kobject path holds a NUL byte
  encodes to a buffer that parses without error, to a different event.
\<close>

theorem roundtrip_counterexample:
  "range_order [] (Env \<lparr>Action = ''add'', KObj = ''a'' @ [NUL] @ ''b=c'', Env = Map.empty\<rparr>)
   \<and> UEvent_Bytes [] \<lparr>Action = ''add'', KObj = ''a'' @ [NUL] @ ''b=c'', Env = Map.empty\<rparr>
       = ''add@a'' @ [NUL] @ ''b=c'' @ [NUL]
   \<and> ParseUEvent example_platform
       (UEvent_Bytes [] \<lparr>Action = ''add'', KObj = ''a'' @ [NUL] @ ''b=c'', Env = Map.empty\<rparr>)
       = Inr (Some \<lparr>Action = ''add'', KObj = ''a'', Env = [''b'' \<mapsto> ''c'']\<rparr>, None)
   \<and> range_order [''b''] (Env \<lparr>Action = ''add'', KObj = ''a'', Env = [''b'' \<mapsto> ''c'']\<rparr>)
   \<and> UEvent_Equal [''b''] \<lparr>Action = ''add'', KObj = ''a'', Env = [''b'' \<mapsto> ''c'']\<rparr>
        \<lparr>Action = ''add'', KObj = ''a'' @ [NUL] @ ''b=c'', Env = Map.empty\<rparr>
       = (False, Some (WrongKObject ''a'' (''a'' @ [NUL] @ ''b=c'')))"
  by (simp add: range_order_def UEvent_Bytes_def UEvent_String_def ParseUEvent_def
      parseKernelFormat_def Split_def ParseKObjAction_def ADD_def go_slice_def UEvent_Equal_def)

subsection \<open>Reading from the socket\<close>

lemma Recvfrom_no_fault:
  assumes "set (faults k) \<subseteq> {None}" "rxq k = d # ds"
  shows "Recvfrom k buf peek =
     Some ((int (min (length d) (length buf)),
            take (min (length d) (length buf)) d @ drop (min (length d) (length buf)) buf, None),
           k\<lparr>faults := tl (faults k), rxq := (if peek then d # ds else ds)\<rparr>)"
proof (cases "faults k")
  case Nil
  with assms show ?thesis by (simp add: Recvfrom_def Let_def)
next
  case (Cons f fs)
  with assms have "f = None" by auto
  with Cons assms show ?thesis by (simp add: Recvfrom_def Let_def)
qed

lemma Recvfrom_fault:
  "faults k = Some e # later \<Longrightarrow>
   Recvfrom k buf peek = Some ((- 1, buf, Some (ErrSyscall e)), k\<lparr>faults := later\<rparr>)"
  by (simp add: Recvfrom_def)

lemma Recvfrom_empty:
  "set (faults k) \<subseteq> {None} \<Longrightarrow> rxq k = [] \<Longrightarrow> Recvfrom k buf peek = None"
  by (cases "faults k") (auto simp add: Recvfrom_def split: option.splits)

lemma rxq_same: "rxq k = q \<Longrightarrow> k\<lparr>faults := fs, rxq := q\<rparr> = k\<lparr>faults := fs\<rparr>"
  by (cases k) simp

lemma Recvfrom_peek:
  assumes "set (faults k) \<subseteq> {None}" "rxq k = d # ds"
  shows "Recvfrom k buf True =
     Some ((int (min (length d) (length buf)),
            take (min (length d) (length buf)) d @ drop (min (length d) (length buf)) buf, None),
           k\<lparr>faults := tl (faults k)\<rparr>)"
  using Recvfrom_no_fault [OF assms, of buf True] assms(2) by (simp add: rxq_same)

lemma msgPeek_loop_fits:
  assumes "set (faults k) \<subseteq> {None}" "rxq k = d # ds" "length d < L"
  shows "msgPeek_loop pf k (replicate L NUL) =
     Some ((int (length d), d @ replicate (L - length d) NUL, None), k\<lparr>faults := tl (faults k)\<rparr>)"
  using assms
  by (subst msgPeek_loop.simps) (simp add: Recvfrom_peek [OF assms(1,2)] min_def)

lemma msgPeek_loop_grows:
  assumes "set (faults k) \<subseteq> {None}" "rxq k = d # ds" "L \<le> length d"
  shows "msgPeek_loop pf k (replicate L NUL) =
     msgPeek_loop pf (k\<lparr>faults := tl (faults k)\<rparr>) (replicate (L + Getpagesize pf) NUL)"
  using assms
  by (subst msgPeek_loop.simps) (simp add: Recvfrom_peek [OF assms(1,2)] min_def)

lemma grow_steps_step:
  assumes "0 < (P::nat)" "L \<le> n"
  shows "(if n < L then 0 else (n - L) div P + 1) =
         Suc (if n < L + P then 0 else (n - (L + P)) div P + 1)"
proof (cases "n < L + P")
  case True
  with assms have "(n - L) div P = 0" by simp
  with True assms show ?thesis by simp
next
  case False
  then have "n - L = (n - (L + P)) + P" by simp
  then have "(n - L) div P = (n - (L + P)) div P + 1"
    using assms(1) by (metis div_add_self2 less_numeral_extra(3))
  with False assms show ?thesis by simp
qed

lemma msgPeek_loop_result:
  assumes P: "0 < Getpagesize pf"
  shows "set (faults k) \<subseteq> {None} \<Longrightarrow> rxq k = d # ds \<Longrightarrow>
    msgPeek_loop pf k (replicate L NUL) =
      Some ((int (length d),
             d @ replicate (L + (if length d < L then 0 else (length d - L) div Getpagesize pf + 1)
                                 * Getpagesize pf - length d) NUL,
             None),
            k\<lparr>faults := drop (Suc (if length d < L then 0
                                     else (length d - L) div Getpagesize pf + 1)) (faults k)\<rparr>)"
proof (induction "Suc (length d) - L" arbitrary: L k rule: less_induct)
  case less
  show ?case
  proof (cases "length d < L")
    case True
    with msgPeek_loop_fits [OF less.prems True] show ?thesis
      by (simp add: drop_Suc)
  next
    case False
    then have le: "L \<le> length d" by simp
    let ?k1 = "k\<lparr>faults := tl (faults k)\<rparr>"
    let ?P = "Getpagesize pf"
    let ?m' = "if length d < L + ?P then 0 else (length d - (L + ?P)) div ?P + 1"
    have f1: "set (faults ?k1) \<subseteq> {None}"
      using less.prems(1) by (cases "faults k") auto
    have r1: "rxq ?k1 = d # ds" using less.prems(2) by simp
    have dec: "Suc (length d) - (L + ?P) < Suc (length d) - L"
      using P le by simp
    have steps: "(if length d < L then 0 else (length d - L) div ?P + 1) = Suc ?m'"
      using grow_steps_step [OF P le] .
    have g: "msgPeek_loop pf k (replicate L NUL) = msgPeek_loop pf ?k1 (replicate (L + ?P) NUL)"
      by (rule msgPeek_loop_grows [OF less.prems le])
    have IH: "msgPeek_loop pf ?k1 (replicate (L + ?P) NUL) = Some ((int (length d),
             d @ replicate (L + ?P + ?m' * ?P - length d) NUL, None),
            ?k1\<lparr>faults := drop (Suc ?m') (faults ?k1)\<rparr>)"
      by (rule less.hyps [OF dec f1 r1])
    have e1: "?k1\<lparr>faults := drop (Suc ?m') (faults ?k1)\<rparr>
        = k\<lparr>faults := drop (Suc (Suc ?m')) (faults k)\<rparr>"
      by (simp add: drop_Suc)
    have e2: "L + ?P + ?m' * ?P = L + Suc ?m' * ?P" by simp
    have "msgPeek_loop pf k (replicate L NUL) = Some ((int (length d),
             d @ replicate (L + Suc ?m' * ?P - length d) NUL, None),
            k\<lparr>faults := drop (Suc (Suc ?m')) (faults k)\<rparr>)"
      by (simp only: g IH e1 e2)
    then show ?thesis unfolding steps .
  qed
qed

lemma msgPeek_result:
  assumes P: "0 < Getpagesize pf" and nf: "set (faults k) \<subseteq> {None}" and q: "rxq k = d # ds"
  shows "msgPeek pf k =
      Some ((int (length d),
             d @ replicate ((length d div Getpagesize pf + 1) * Getpagesize pf - length d) NUL,
             None),
            k\<lparr>faults := drop (length d div Getpagesize pf + 1) (faults k)\<rparr>)"
proof -
  let ?P = "Getpagesize pf"
  have m: "(if length d < ?P then 0 else (length d - ?P) div ?P + 1) = length d div ?P"
    using P by (simp add: le_div_geq)
  have e: "?P + (length d div ?P) * ?P = (length d div ?P + 1) * ?P" by simp
  have s: "Suc (length d div ?P) = length d div ?P + 1" by simp
  from msgPeek_loop_result [OF P nf q, of ?P] show ?thesis
    unfolding msgPeek_def by (simp only: m e s)
qed

lemma less_next_multiple: "0 < (P::nat) \<Longrightarrow> n < (n div P + 1) * P"
  using dividend_less_div_times [of P n] by (simp add: algebra_simps)

text \<open>
  C8, as the code has it. On a platform with a positive page size, with a datagram
  queued and no failing call, \<^verbatim>\<open>msgPeek\<close> returns: the count is the size of the
  datagram, the datagram stays queued, and the buffer starts with the datagram.
  The buffer begins at one page and gains one page each time a peek fills it, so
  its final size is the least multiple of the page size above the size of the
  datagram, and the count returned is below it. A datagram smaller than a page
  leaves the buffer at one page; a datagram of exactly one page is returned with
  its size, in a buffer of two pages.
\<close>

theorem msgPeek_grows_by_pages:
  assumes "0 < Getpagesize pf" and "set (faults k) \<subseteq> {None}" and "rxq k = d # ds"
  shows "\<exists>buf k'. msgPeek pf k = Some ((int (length d), buf, None), k')
     \<and> length buf = (length d div Getpagesize pf + 1) * Getpagesize pf
     \<and> length d < length buf
     \<and> take (length d) buf = d
     \<and> rxq k' = rxq k
     \<and> (length d < Getpagesize pf \<longrightarrow> length buf = Getpagesize pf)
     \<and> (length d = Getpagesize pf \<longrightarrow> length buf = 2 * Getpagesize pf)"
proof -
  let ?P = "Getpagesize pf"
  let ?cap = "(length d div ?P + 1) * ?P"
  let ?buf = "d @ replicate (?cap - length d) NUL"
  let ?k' = "k\<lparr>faults := drop (length d div ?P + 1) (faults k)\<rparr>"
  have r: "msgPeek pf k = Some ((int (length d), ?buf, None), ?k')"
    by (rule msgPeek_result [OF assms])
  have lt: "length d < ?cap" by (rule less_next_multiple [OF assms(1)])
  then have len: "length ?buf = ?cap" by simp
  have small: "length d < ?P \<longrightarrow> ?cap = ?P" by simp
  have one: "length d = ?P \<longrightarrow> ?cap = 2 * ?P" using assms(1) by simp
  have tk: "take (length d) ?buf = d" by simp
  have q: "rxq ?k' = rxq k" by simp
  from r len lt small one tk q show ?thesis by (metis (no_types, lifting))
qed

theorem msgPeek_grows_by_pages_witness:
  "0 < Getpagesize example_platform
   \<and> (\<exists>buf k'. msgPeek example_platform \<lparr>rxq = [replicate 4096 (CHR ''x'')], faults = []\<rparr>
         = Some ((4096, buf, None), k') \<and> length buf = 8192
         \<and> take 4096 buf = replicate 4096 (CHR ''x''))"
proof -
  let ?k = "\<lparr>rxq = [replicate 4096 (CHR ''x'')], faults = []\<rparr>"
  have h1: "0 < Getpagesize example_platform" by (simp add: example_platform_def)
  have h2: "set (faults ?k) \<subseteq> {None}" by simp
  have h3: "rxq ?k = replicate 4096 (CHR ''x'') # []" by simp
  have h4: "Getpagesize example_platform = 4096" by (simp add: example_platform_def)
  from msgPeek_grows_by_pages [OF h1 h2 h3] h1 show ?thesis
    by (simp add: h4) blast
qed

text \<open>
  C8 as worded has the buffer double. It gains one page at a time: for a datagram
  of two pages the sizes are one, two and three pages, not one, two and four.
\<close>

theorem page_growth_counterexample:
  "msgPeek example_platform \<lparr>rxq = [replicate 8192 (CHR ''x'')], faults = []\<rparr>
     = Some ((8192, replicate 8192 (CHR ''x'') @ replicate 4096 NUL, None),
             \<lparr>rxq = [replicate 8192 (CHR ''x'')], faults = []\<rparr>)
   \<and> length (replicate 8192 (CHR ''x'') @ replicate 4096 NUL) = 3 * 4096"
proof -
  let ?k = "\<lparr>rxq = [replicate 8192 (CHR ''x'')], faults = []\<rparr>"
  have h1: "0 < Getpagesize example_platform" by (simp add: example_platform_def)
  have h2: "set (faults ?k) \<subseteq> {None}" by simp
  have h3: "rxq ?k = replicate 8192 (CHR ''x'') # []" by simp
  have h4: "Getpagesize example_platform = 4096" by (simp add: example_platform_def)
  from msgPeek_result [OF h1 h2 h3] show ?thesis
    by (simp add: h4)
qed

text \<open>
  C10, as the code has it. \<^verbatim>\<open>msgRead\<close> fails with an error on a \<^verbatim>\<open>nil\<close> buffer
  pointer and when the read fails, returning the error of the read. When the read
  succeeds, it cuts the buffer down to the number of bytes the read returned: with
  a datagram queued, to the bytes of the datagram that fit, and the datagram is
  gone from the queue.
\<close>

theorem msgRead_outcomes:
  "msgRead k None = Some ((Some ErrEmptyBuffer, None), k) \<and>
   (\<forall>n b' err k'. Recvfrom k b False = Some ((n, b', Some err), k') \<longrightarrow>
      msgRead k (Some b) = Some ((Some err, Some b'), k')) \<and>
   (\<forall>n b' k'. Recvfrom k b False = Some ((n, b', None), k') \<longrightarrow>
      msgRead k (Some b) = Some ((None, Some (take (nat n) b')), k')) \<and>
   (\<forall>e later. faults k = Some e # later \<longrightarrow>
      msgRead k (Some b) = Some ((Some (ErrSyscall e), Some b), k\<lparr>faults := later\<rparr>)) \<and>
   (\<forall>d ds. set (faults k) \<subseteq> {None} \<and> rxq k = d # ds \<longrightarrow>
      msgRead k (Some b) =
        Some ((None, Some (take (length b) d)), k\<lparr>faults := tl (faults k), rxq := ds\<rparr>)
      \<and> length (take (length b) d) = min (length d) (length b))"
proof -
  have A: "msgRead k None = Some ((Some ErrEmptyBuffer, None), k)"
    by (simp add: msgRead_def)
  have B: "\<forall>n b' err k'. Recvfrom k b False = Some ((n, b', Some err), k') \<longrightarrow>
      msgRead k (Some b) = Some ((Some err, Some b'), k')"
    by (simp add: msgRead_def)
  have C: "\<forall>n b' k'. Recvfrom k b False = Some ((n, b', None), k') \<longrightarrow>
      msgRead k (Some b) = Some ((None, Some (take (nat n) b')), k')"
    by (simp add: msgRead_def)
  have D: "\<forall>e later. faults k = Some e # later \<longrightarrow>
      msgRead k (Some b) = Some ((Some (ErrSyscall e), Some b), k\<lparr>faults := later\<rparr>)"
    by (simp add: msgRead_def Recvfrom_fault)
  have E: "\<forall>d ds. set (faults k) \<subseteq> {None} \<and> rxq k = d # ds \<longrightarrow>
      msgRead k (Some b) =
        Some ((None, Some (take (length b) d)), k\<lparr>faults := tl (faults k), rxq := ds\<rparr>)
      \<and> length (take (length b) d) = min (length d) (length b)"
  proof (intro allI impI)
    fix d ds
    assume h: "set (faults k) \<subseteq> {None} \<and> rxq k = d # ds"
    then have "Recvfrom k b False =
       Some ((int (min (length d) (length b)),
            take (min (length d) (length b)) d @ drop (min (length d) (length b)) b, None),
           k\<lparr>faults := tl (faults k), rxq := ds\<rparr>)"
      using Recvfrom_no_fault [of k d ds b False] by simp
    then show "msgRead k (Some b) =
        Some ((None, Some (take (length b) d)), k\<lparr>faults := tl (faults k), rxq := ds\<rparr>)
      \<and> length (take (length b) d) = min (length d) (length b)"
      by (simp add: msgRead_def min_def)
  qed
  from A B C D E show ?thesis by blast
qed

theorem msgRead_outcomes_witness:
  "msgRead \<lparr>rxq = [''add@/x'' @ [NUL]], faults = [Some 9]\<rparr> (Some (replicate 16 NUL))
     = Some ((Some (ErrSyscall 9), Some (replicate 16 NUL)), \<lparr>rxq = [''add@/x'' @ [NUL]], faults = []\<rparr>)
   \<and> msgRead \<lparr>rxq = [''add@/x'' @ [NUL]], faults = []\<rparr> (Some (replicate 16 NUL))
     = Some ((None, Some (''add@/x'' @ [NUL])), \<lparr>rxq = [], faults = []\<rparr>)"
proof -
  let ?k1 = "\<lparr>rxq = [''add@/x'' @ [NUL]], faults = [Some 9]\<rparr>"
  let ?k2 = "\<lparr>rxq = [''add@/x'' @ [NUL]], faults = []\<rparr>"
  have c1: "msgRead ?k1 (Some (replicate 16 NUL))
     = Some ((Some (ErrSyscall 9), Some (replicate 16 NUL)), \<lparr>rxq = [''add@/x'' @ [NUL]], faults = []\<rparr>)"
    using msgRead_outcomes [of ?k1 "replicate 16 NUL"] by simp
  have c2: "msgRead ?k2 (Some (replicate 16 NUL))
     = Some ((None, Some (''add@/x'' @ [NUL])), \<lparr>rxq = [], faults = []\<rparr>)"
    using msgRead_outcomes [of ?k2 "replicate 16 NUL"] by simp
  from c1 c2 show ?thesis by blast
qed

text \<open>
  C10 as worded has a buffer of length zero rejected. Only the \<^verbatim>\<open>nil\<close> pointer
  is: an empty buffer goes to the read, which returns zero bytes and no error.
\<close>

theorem zero_length_buffer_counterexample:
  "msgRead \<lparr>rxq = [''add@/x'' @ [NUL]], faults = []\<rparr> (Some [])
     = Some ((None, Some []), \<lparr>rxq = [], faults = []\<rparr>)"
  by (simp add: msgRead_def Recvfrom_def)

subsection \<open>The monitor loop\<close>

text \<open>
  A turn of the loop with nothing in \<^verbatim>\<open>bufToRead\<close> peeks; the next turn reads and
  parses. What the two turns do with one datagram depends on what the parser
  makes of it: an error is sent on and the loop goes on with its counter as it
  was; a failed read ends the loop with the error sent; a panic of the parser
  kills the worker.
\<close>

lemma msgRead_success:
  assumes "set (faults k) \<subseteq> {None}" "rxq k = d # ds"
  shows "msgRead k (Some b) =
        Some ((None, Some (take (length b) d)), k\<lparr>faults := tl (faults k), rxq := ds\<rparr>)"
  using Recvfrom_no_fault [OF assms, of b False]
  by (simp add: msgRead_def min_def)

lemma no_faults_drop: "set fs \<subseteq> {None} \<Longrightarrow> set (drop n fs) \<subseteq> {None}"
  using set_drop_subset [of n fs] by blast

lemma Monitor_step_peek:
  assumes P: "0 < Getpagesize pf" and run: "ctl st = Looping" and empty: "bufToRead st = None"
    and nf: "set (faults (kern st)) \<subseteq> {None}" and q: "rxq (kern st) = d # ds"
  shows "Monitor_step pf lim m (False, c) st =
     st\<lparr>kern := (kern st)\<lparr>faults := drop (length d div Getpagesize pf + 1) (faults (kern st))\<rparr>,
        bufToRead := Some (d @ replicate ((length d div Getpagesize pf + 1) * Getpagesize pf
                                          - length d) NUL)\<rparr>"
  by (simp add: Monitor_step_def run empty msgPeek_result [OF P nf q])

lemma Monitor_step_read:
  assumes run: "ctl st = Looping" and full: "bufToRead st = Some b" and fits: "length d \<le> length b"
    and nf: "set (faults (kern st)) \<subseteq> {None}" and q: "rxq (kern st) = d # ds"
  shows "Monitor_step pf lim m (False, c) st =
     (let k' = (kern st)\<lparr>faults := tl (faults (kern st)), rxq := ds\<rparr> in
      case ParseUEvent pf d of
        Inl f \<Rightarrow> st\<lparr>kern := k', bufToRead := None, ctl := Crashed f\<rparr>
      | Inr (e, err) \<Rightarrow>
          (case err of
             Some perr \<Rightarrow>
               st\<lparr>kern := k', bufToRead := None, errs := errs st @ [ErrUnableToParse perr]\<rparr>
           | None \<Rightarrow>
               (case e of
                  None \<Rightarrow> st\<lparr>kern := k', bufToRead := None, ctl := Crashed NilDereference\<rparr>
                | Some uevent \<Rightarrow>
                    if (case m of None \<Rightarrow> False | Some mt \<Rightarrow> \<not> Evaluate mt uevent)
                    then st\<lparr>kern := k', bufToRead := None\<rparr>
                    else if lim > 0 \<and> count st + 1 \<ge> lim
                    then st\<lparr>kern := k', bufToRead := None, queue := queue st @ [uevent],
                            count := count st + 1, ctl := Exited\<rparr>
                    else st\<lparr>kern := k', bufToRead := None, queue := queue st @ [uevent],
                            count := count st + 1\<rparr>)))"
  using fits
  by (simp add: Monitor_step_def run full msgRead_success [OF nf q] Let_def
      split: sum.splits prod.splits option.splits)

lemma Monitor_step_read_failure:
  assumes run: "ctl st = Looping" and full: "bufToRead st = Some b"
    and f: "faults (kern st) = Some e # later"
  shows "Monitor_step pf lim m (False, c) st =
     st\<lparr>kern := (kern st)\<lparr>faults := later\<rparr>, bufToRead := None,
        errs := errs st @ [ErrUnableToRead (ErrSyscall e)], ctl := Exited\<rparr>"
  by (simp add: Monitor_step_def run full msgRead_def Recvfrom_fault [OF f])

lemma Monitor_step_done: "ctl st \<noteq> Looping \<Longrightarrow> Monitor_step pf lim m sel st = st"
  by (simp add: Monitor_step_def)

lemma msgPeek_failure:
  "faults k = Some e # later \<Longrightarrow>
   msgPeek pf k =
     Some ((- 1, replicate (Getpagesize pf) NUL, Some (ErrSyscall e)), k\<lparr>faults := later\<rparr>)"
  unfolding msgPeek_def
  by (subst msgPeek_loop.simps) (simp add: Recvfrom_fault)

lemma Monitor_step_peek_failure:
  assumes run: "ctl st = Looping" and empty: "bufToRead st = None"
    and f: "faults (kern st) = Some e # later"
  shows "Monitor_step pf lim m (False, c) st =
     st\<lparr>kern := (kern st)\<lparr>faults := later\<rparr>,
        errs := errs st @ [ErrUnableToCheck (ErrSyscall e)], ctl := Exited\<rparr>"
  by (simp add: Monitor_step_def run empty msgPeek_failure [OF f])

lemma Monitor_loop_exited: "ctl st \<noteq> Looping \<Longrightarrow> Monitor_loop pf lim m sels st = st"
  by (induction sels) (simp_all add: Monitor_step_done)

lemma tl_drop_Suc: "tl (drop n xs) = drop (Suc n) xs"
  by (simp add: drop_Suc tl_drop)

lemma Monitor_datagram:
  assumes P: "0 < Getpagesize pf" and run: "ctl st = Looping" and empty: "bufToRead st = None"
    and nf: "set (faults (kern st)) \<subseteq> {None}" and q: "rxq (kern st) = d # ds"
  shows "Monitor_step pf lim m (False, c2) (Monitor_step pf lim m (False, c1) st) =
     (let k' = (kern st)\<lparr>faults := drop (length d div Getpagesize pf + 2) (faults (kern st)),
                            rxq := ds\<rparr> in
      case ParseUEvent pf d of
        Inl f \<Rightarrow> st\<lparr>kern := k', bufToRead := None, ctl := Crashed f\<rparr>
      | Inr (e, err) \<Rightarrow>
          (case err of
             Some perr \<Rightarrow>
               st\<lparr>kern := k', bufToRead := None, errs := errs st @ [ErrUnableToParse perr]\<rparr>
           | None \<Rightarrow>
               (case e of
                  None \<Rightarrow> st\<lparr>kern := k', bufToRead := None, ctl := Crashed NilDereference\<rparr>
                | Some uevent \<Rightarrow>
                    if (case m of None \<Rightarrow> False | Some mt \<Rightarrow> \<not> Evaluate mt uevent)
                    then st\<lparr>kern := k', bufToRead := None\<rparr>
                    else if lim > 0 \<and> count st + 1 \<ge> lim
                    then st\<lparr>kern := k', bufToRead := None, queue := queue st @ [uevent],
                            count := count st + 1, ctl := Exited\<rparr>
                    else st\<lparr>kern := k', bufToRead := None, queue := queue st @ [uevent],
                            count := count st + 1\<rparr>)))"
proof -
  let ?P = "Getpagesize pf"
  let ?b = "d @ replicate ((length d div ?P + 1) * ?P - length d) NUL"
  let ?st1 = "st\<lparr>kern := (kern st)\<lparr>faults := drop (length d div ?P + 1) (faults (kern st))\<rparr>,
        bufToRead := Some ?b\<rparr>"
  have s1: "Monitor_step pf lim m (False, c1) st = ?st1"
    by (rule Monitor_step_peek [OF P run empty nf q])
  have run1: "ctl ?st1 = Looping" using run by simp
  have full1: "bufToRead ?st1 = Some ?b" by simp
  have fits: "length d \<le> length ?b" by simp
  have nf1: "set (faults (kern ?st1)) \<subseteq> {None}" using no_faults_drop [OF nf] by simp
  have q1: "rxq (kern ?st1) = d # ds" using q by simp
  note s2 = Monitor_step_read [OF run1 full1 fits nf1 q1, of pf lim m c2]
  show ?thesis
  proof (cases "ParseUEvent pf d")
    case (Inl f)
    then show ?thesis unfolding s1 s2 by (simp add: tl_drop_Suc Let_def)
  next
    case (Inr r)
    obtain e err where r: "r = (e, err)" by (cases r)
    show ?thesis
    proof (cases err)
      case (Some x)
      with Inr r show ?thesis unfolding s1 s2
        by (simp add: tl_drop_Suc Let_def split: option.splits)
    next
      case None
      show ?thesis
      proof (cases e)
        case no: None
        with None Inr r show ?thesis unfolding s1 s2 by (simp add: tl_drop_Suc Let_def)
      next
        case (Some uevent)
        with None Inr r show ?thesis unfolding s1 s2
          by (simp add: tl_drop_Suc Let_def split: option.splits)
      qed
    qed
  qed
qed

lemma Monitor_first_datagram:
  assumes P: "0 < Getpagesize pf"
    and p1: "ParseUEvent pf d1 = Inr (Some e1, None)"
    and lim: "lim \<le> 0 \<or> 1 < lim"
  shows "Monitor pf lim None \<lparr>rxq = d1 # ds, faults = []\<rparr> ((False, a) # (False, b) # sels) =
     Monitor_loop pf lim None sels
       \<lparr>kern = \<lparr>rxq = ds, faults = []\<rparr>, bufToRead = None, count = 1, queue = [e1],
        queue_closed = False, errs = [], ctl = Looping\<rparr>"
proof -
  let ?st0 = "\<lparr>kern = \<lparr>rxq = d1 # ds, faults = []\<rparr>, bufToRead = None, count = 0, queue = [],
               queue_closed = False, errs = [], ctl = Looping\<rparr>"
  have "Monitor_step pf lim None (False, b) (Monitor_step pf lim None (False, a) ?st0) =
       \<lparr>kern = \<lparr>rxq = ds, faults = []\<rparr>, bufToRead = None, count = 1, queue = [e1],
        queue_closed = False, errs = [], ctl = Looping\<rparr>"
    using lim by (subst Monitor_datagram [OF P, where d = d1 and ds = ds]) (auto simp add: p1)
  then show ?thesis by (simp add: Monitor_def)
qed

lemma Monitor_loop_parse_error:
  assumes P: "0 < Getpagesize pf"
    and run: "ctl st = Looping" and empty: "bufToRead st = None"
    and k: "kern st = \<lparr>rxq = d # ds, faults = []\<rparr>"
    and p: "ParseUEvent pf d = Inr (x, Some err)"
  shows "Monitor_loop pf lim m ((False, a) # (False, b) # sels) st =
     Monitor_loop pf lim m sels
       (st\<lparr>kern := \<lparr>rxq = ds, faults = []\<rparr>, errs := errs st @ [ErrUnableToParse err]\<rparr>)"
proof -
  have "Monitor_step pf lim m (False, b) (Monitor_step pf lim m (False, a) st) =
       st\<lparr>kern := \<lparr>rxq = ds, faults = []\<rparr>, bufToRead := None,
          errs := errs st @ [ErrUnableToParse err]\<rparr>"
    by (subst Monitor_datagram [OF P run empty, where d = d and ds = ds]) (simp_all add: k p)
  also have "\<dots> = st\<lparr>kern := \<lparr>rxq = ds, faults = []\<rparr>, errs := errs st @ [ErrUnableToParse err]\<rparr>"
    using empty by (cases st) simp
  finally show ?thesis by simp
qed

lemma Monitor_loop_panic:
  assumes P: "0 < Getpagesize pf"
    and run: "ctl st = Looping" and empty: "bufToRead st = None"
    and k: "kern st = \<lparr>rxq = d # ds, faults = []\<rparr>"
    and p: "ParseUEvent pf d = Inl f"
  shows "Monitor_loop pf lim m ((False, a) # (False, b) # sels) st =
     st\<lparr>kern := \<lparr>rxq = ds, faults = []\<rparr>, ctl := Crashed f\<rparr>"
proof -
  have dead: "\<And>s. ctl s \<noteq> Looping \<Longrightarrow> Monitor_loop pf lim m sels s = s"
    by (induction sels) (simp_all add: Monitor_step_done)
  have "Monitor_step pf lim m (False, b) (Monitor_step pf lim m (False, a) st) =
       st\<lparr>kern := \<lparr>rxq = ds, faults = []\<rparr>, bufToRead := None, ctl := Crashed f\<rparr>"
    by (subst Monitor_datagram [OF P run empty, where d = d and ds = ds]) (simp_all add: k p)
  also have "\<dots> = st\<lparr>kern := \<lparr>rxq = ds, faults = []\<rparr>, ctl := Crashed f\<rparr>"
    using empty by (cases st) simp
  finally show ?thesis by (simp add: dead)
qed

lemma Monitor_loop_accept:
  assumes P: "0 < Getpagesize pf"
    and run: "ctl st = Looping" and empty: "bufToRead st = None"
    and k: "kern st = \<lparr>rxq = d # ds, faults = []\<rparr>"
    and p: "ParseUEvent pf d = Inr (Some e, None)"
    and lim: "lim \<le> 0 \<or> count st + 1 < lim"
  shows "Monitor_loop pf lim None ((False, a) # (False, b) # sels) st =
     Monitor_loop pf lim None sels
       (st\<lparr>kern := \<lparr>rxq = ds, faults = []\<rparr>, queue := queue st @ [e], count := count st + 1\<rparr>)"
proof -
  have "Monitor_step pf lim None (False, b) (Monitor_step pf lim None (False, a) st) =
       st\<lparr>kern := \<lparr>rxq = ds, faults = []\<rparr>, bufToRead := None,
          queue := queue st @ [e], count := count st + 1\<rparr>"
    using lim
    by (subst Monitor_datagram [OF P run empty, where d = d and ds = ds]) (auto simp add: k p)
  also have "\<dots> = st\<lparr>kern := \<lparr>rxq = ds, faults = []\<rparr>,
          queue := queue st @ [e], count := count st + 1\<rparr>"
    using empty by (cases st) simp
  finally show ?thesis by simp
qed

lemma Monitor_malformed_between_valid:
  assumes P: "0 < Getpagesize pf"
    and p1: "ParseUEvent pf d1 = Inr (Some e1, None)"
    and p2: "ParseUEvent pf d2 = Inr (x, Some err)"
    and p3: "ParseUEvent pf d3 = Inr (Some e3, None)"
    and lim: "lim \<le> 0 \<or> 2 < lim"
  shows "Monitor pf lim None \<lparr>rxq = [d1, d2, d3], faults = []\<rparr>
       [(False, a), (False, b), (False, c), (False, d), (False, e), (False, f)] =
     \<lparr>kern = \<lparr>rxq = [], faults = []\<rparr>, bufToRead = None, count = 2, queue = [e1, e3],
      queue_closed = False, errs = [ErrUnableToParse err], ctl = Looping\<rparr>"
proof -
  let ?st1 = "\<lparr>kern = \<lparr>rxq = [d2, d3], faults = []\<rparr>, bufToRead = None, count = 1,
      queue = [e1], queue_closed = False, errs = [], ctl = Looping\<rparr>"
  let ?st2 = "?st1\<lparr>kern := \<lparr>rxq = [d3], faults = []\<rparr>, errs := errs ?st1 @ [ErrUnableToParse err]\<rparr>"
  let ?st3 = "?st2\<lparr>kern := \<lparr>rxq = [], faults = []\<rparr>, queue := queue ?st2 @ [e3],
      count := count ?st2 + 1\<rparr>"
  from lim have lim1: "lim \<le> 0 \<or> 1 < lim" by auto
  from lim have lim2: "lim \<le> 0 \<or> count ?st2 + 1 < lim" by auto
  have "Monitor pf lim None \<lparr>rxq = [d1, d2, d3], faults = []\<rparr>
       [(False, a), (False, b), (False, c), (False, d), (False, e), (False, f)] =
     Monitor_loop pf lim None [(False, c), (False, d), (False, e), (False, f)] ?st1"
    by (rule Monitor_first_datagram [OF P p1 lim1])
  also have "\<dots> = Monitor_loop pf lim None [(False, e), (False, f)] ?st2"
    by (rule Monitor_loop_parse_error [OF P _ _ _ p2]) simp_all
  also have "\<dots> = Monitor_loop pf lim None [] ?st3"
    by (rule Monitor_loop_accept [OF P _ _ _ p3 lim2]) simp_all
  also have "\<dots> = \<lparr>kern = \<lparr>rxq = [], faults = []\<rparr>, bufToRead = None, count = 2, queue = [e1, e3],
      queue_closed = False, errs = [ErrUnableToParse err], ctl = Looping\<rparr>"
    by simp
  finally show ?thesis .
qed

lemma Monitor_panic_between_valid:
  assumes P: "0 < Getpagesize pf"
    and p1: "ParseUEvent pf d1 = Inr (Some e1, None)"
    and p2: "ParseUEvent pf d2 = Inl flt"
    and lim: "lim \<le> 0 \<or> 1 < lim"
  shows "Monitor pf lim None \<lparr>rxq = [d1, d2, d3], faults = []\<rparr>
       [(False, a), (False, b), (False, c), (False, d), (False, e), (False, f)] =
     \<lparr>kern = \<lparr>rxq = [d3], faults = []\<rparr>, bufToRead = None, count = 1, queue = [e1],
      queue_closed = False, errs = [], ctl = Crashed flt\<rparr>"
proof -
  let ?st1 = "\<lparr>kern = \<lparr>rxq = [d2, d3], faults = []\<rparr>, bufToRead = None, count = 1,
      queue = [e1], queue_closed = False, errs = [], ctl = Looping\<rparr>"
  have "Monitor pf lim None \<lparr>rxq = [d1, d2, d3], faults = []\<rparr>
       [(False, a), (False, b), (False, c), (False, d), (False, e), (False, f)] =
     Monitor_loop pf lim None [(False, c), (False, d), (False, e), (False, f)] ?st1"
    by (rule Monitor_first_datagram [OF P p1 lim])
  also have "\<dots> = ?st1\<lparr>kern := \<lparr>rxq = [d3], faults = []\<rparr>, ctl := Crashed flt\<rparr>"
    by (rule Monitor_loop_panic [OF P _ _ _ p2]) simp_all
  also have "\<dots> = \<lparr>kern = \<lparr>rxq = [d3], faults = []\<rparr>, bufToRead = None, count = 1, queue = [e1],
      queue_closed = False, errs = [], ctl = Crashed flt\<rparr>"
    by simp
  finally show ?thesis .
qed

text \<open>
  C9. A datagram that does not parse should cost one entry on the error channel
  and nothing else: the events before and after it are delivered
  (\<open>Monitor_malformed_between_valid\<close> shows this for every datagram on which the
  parser returns an error). The datagram \<open>add@/devices/foo\<close>, which lacks its NUL
  byte, is malformed too, and between two valid datagrams it makes the parser
  panic: the worker dies with the first event delivered, no error sent and the
  third datagram still queued.
\<close>

theorem Monitor_unterminated_datagram:
  "Monitor example_platform 0 None
     \<lparr>rxq = [''add@/devices/a'' @ [NUL], ''add@/devices/foo'', ''add@/devices/b'' @ [NUL]],
      faults = []\<rparr>
     [(False, False), (False, False), (False, False), (False, False), (False, False), (False, False)] =
   \<lparr>kern = \<lparr>rxq = [''add@/devices/b'' @ [NUL]], faults = []\<rparr>, bufToRead = None, count = 1,
    queue = [\<lparr>Action = ''add'', KObj = ''/devices/a'', Env = Map.empty\<rparr>],
    queue_closed = False, errs = [], ctl = Crashed (SliceBounds 1 0)\<rparr>"
proof -
  have P: "0 < Getpagesize example_platform" by (simp add: example_platform_def)
  have p1: "ParseUEvent example_platform (''add@/devices/a'' @ [NUL]) =
      Inr (Some \<lparr>Action = ''add'', KObj = ''/devices/a'', Env = Map.empty\<rparr>, None)"
    by (simp add: ParseUEvent_def parseKernelFormat_def Split_def ParseKObjAction_def ADD_def
        go_slice_def)
  have p2: "ParseUEvent example_platform ''add@/devices/foo'' = Inl (SliceBounds 1 0)"
    by (simp add: ParseUEvent_def parseKernelFormat_def Split_def ParseKObjAction_def ADD_def
        go_slice_def)
  have lim: "(0::int) \<le> 0 \<or> 1 < (0::int)" by simp
  show ?thesis by (rule Monitor_panic_between_valid [OF P p1 p2 lim])
qed

end
